theory Spec2Isabelle
  imports Complex_Main "HOL-Library.Word" "HOL-Library.Log_Nat"
begin

unbundle bit_operations_syntax

section \<open>Data model\<close>

text \<open>
  The embedding follows \<^verbatim>\<open>VoiceClassifier.ts\<close> and \<^verbatim>\<open>MIDIGenerator.ts\<close>.
  A TypeScript \<^verbatim>\<open>number\<close> that holds a note number, a velocity, a channel or a
  byte is an \<^typ>\<open>int\<close>. A \<^verbatim>\<open>number\<close> that holds a time, a duration or a tempo
  is a finite double, which is a rational number: its type is \<^typ>\<open>rat\<close>, and each
  arithmetic operation of the source is the exact operation followed by the rounding
  \<open>fl\<close> to the nearest double (next section). The values \<^verbatim>\<open>NaN\<close> and
  \<^verbatim>\<open>Infinity\<close> are not in the model.
  An optional field (\<^verbatim>\<open>timestamp?\<close>) is an \<^typ>\<open>'a option\<close>, with \<open>None\<close> for
  \<^verbatim>\<open>undefined\<close>. The fields of a note keep the source's names; the fields of
  an event carry the prefix \<open>ev_\<close> and those of a sequence that clash the prefix
  \<open>seq_\<close>, since the source reuses \<^verbatim>\<open>pitch\<close>, \<^verbatim>\<open>channel\<close> and \<^verbatim>\<open>duration\<close>
  in several interfaces.
\<close>

datatype Voice = SOPRANO | ALTO | TENOR | BASS

record DetectedNote =
  pitch :: int
  duration :: rat
  staffPosition :: "int option"
  timestamp :: "rat option"
  confidence :: "rat option"

record ClassifiedNote = DetectedNote +
  voice :: Voice
  channel :: int

section \<open>Arithmetic on doubles\<close>

text \<open>
  A double has a significand of 53 bits. \<open>expo x\<close> is the exponent of the binade of
  \<open>x\<close>, the integer \<open>e\<close> with \<open>2^e \<le> |x| < 2^(e+1)\<close>, computed from the bit
  lengths of the numerator and the denominator. \<open>fl x\<close> is \<open>x\<close> rounded to the
  nearest multiple of \<open>2^(e-52)\<close>, a tie to the even multiple, as IEEE 754 rounds
  the result of every operation. The range of the exponent is not bounded: a result of
  magnitude \<open>2^1024\<close> or more (\<^verbatim>\<open>Infinity\<close> in the source) or below \<open>2^-1022\<close>
  (a subnormal) is outside the model. A division by zero gives \<^verbatim>\<open>Infinity\<close> or
  \<^verbatim>\<open>NaN\<close> in the source and \<open>None\<close> here.
\<close>

definition expo :: "rat \<Rightarrow> int" where
  "expo x =
     (case quotient_of \<bar>x\<bar> of
        (p, q) \<Rightarrow> let e = bitlen p - bitlen q in if 2 powi e \<le> \<bar>x\<bar> then e else e - 1)"

definition roundEven :: "rat \<Rightarrow> int" where
  "roundEven y =
     (let f = \<lfloor>y\<rfloor>; r = y - of_int f
      in if r < 1 / 2 then f else if 1 / 2 < r then f + 1 else if even f then f else f + 1)"

definition fl :: "rat \<Rightarrow> rat" where
  "fl x =
     (if x = 0 then 0
      else let s = 2 powi (expo x - 52)
           in sgn x * (of_int (roundEven (\<bar>x\<bar> / s)) * s))"

definition fadd :: "rat \<Rightarrow> rat \<Rightarrow> rat" where
  "fadd a b = fl (a + b)"

definition fsub :: "rat \<Rightarrow> rat \<Rightarrow> rat" where
  "fsub a b = fl (a - b)"

definition fmul :: "rat \<Rightarrow> rat \<Rightarrow> rat" where
  "fmul a b = fl (a * b)"

definition fdiv :: "rat \<Rightarrow> rat \<Rightarrow> rat option" where
  "fdiv a b = (if b = 0 then None else Some (fl (a / b)))"

text \<open>
  \<open>minNormal\<close> is the least normal double and \<open>maxDouble\<close> the greatest double
  (\<^verbatim>\<open>Number.MAX_VALUE\<close>). \<open>inDoubleRange x\<close>: the exact result \<open>x\<close> of an
  operation is 0, or its magnitude lies between these two. For such a result
  \<open>fl x\<close> is the double that the source computes.
\<close>

definition minNormal :: rat where
  "minNormal = 2 powi (- 1022)"

definition maxDouble :: rat where
  "maxDouble = (2 ^ 53 - 1) * 2 ^ 971"

definition inDoubleRange :: "rat \<Rightarrow> bool" where
  "inDoubleRange x = (x = 0 \<or> (minNormal \<le> \<bar>x\<bar> \<and> \<bar>x\<bar> \<le> maxDouble))"

section \<open>Voice classifier\<close>

fun VOICE_RANGES :: "Voice \<Rightarrow> int \<times> int" where
  "VOICE_RANGES SOPRANO = (72, 96)"
| "VOICE_RANGES ALTO = (60, 84)"
| "VOICE_RANGES TENOR = (48, 72)"
| "VOICE_RANGES BASS = (36, 60)"

fun VOICE_CHANNELS :: "Voice \<Rightarrow> int" where
  "VOICE_CHANNELS SOPRANO = 0"
| "VOICE_CHANNELS ALTO = 1"
| "VOICE_CHANNELS TENOR = 2"
| "VOICE_CHANNELS BASS = 3"

definition isInRange :: "int \<Rightarrow> int \<times> int \<Rightarrow> bool" where
  "isInRange p rng = (p \<ge> fst rng \<and> p \<le> snd rng)"

text \<open>
  \<^verbatim>\<open>classifyByStaffPosition\<close> is declared to return \<^verbatim>\<open>Voice | null\<close>; every
  branch returns a voice, and the unused parameter \<^verbatim>\<open>preferredVoice\<close> is kept.
\<close>

definition classifyByStaffPosition :: "int \<Rightarrow> Voice \<Rightarrow> Voice option" where
  "classifyByStaffPosition position preferredVoice =
     (if position \<le> 2 then Some SOPRANO
      else if position \<le> 4 then Some ALTO
      else if position \<le> 7 then Some TENOR
      else Some BASS)"

definition primaryVoice :: "int \<Rightarrow> Voice" where
  "primaryVoice p =
     (if isInRange p (VOICE_RANGES SOPRANO) then SOPRANO
      else if isInRange p (VOICE_RANGES ALTO) then ALTO
      else if isInRange p (VOICE_RANGES TENOR) then TENOR
      else BASS)"

definition refineVoice :: "int option \<Rightarrow> Voice \<Rightarrow> Voice" where
  "refineVoice sp v =
     (case sp of
        None \<Rightarrow> v
      | Some position \<Rightarrow>
          (case classifyByStaffPosition position v of
             None \<Rightarrow> v
           | Some refinedVoice \<Rightarrow> refinedVoice))"

text \<open>
  \<^verbatim>\<open>classifyNote\<close>: the primary voice from the pitch ranges, the refinement by
  staff position when one is given, and the result \<^verbatim>\<open>{...note, voice, channel}\<close>,
  which copies every field of the note as it is.
\<close>

definition classifyNote :: "DetectedNote \<Rightarrow> ClassifiedNote" where
  "classifyNote note =
     (let v = refineVoice (staffPosition note) (primaryVoice (pitch note))
      in \<lparr> pitch = pitch note, duration = duration note,
           staffPosition = staffPosition note, timestamp = timestamp note,
           confidence = confidence note,
           voice = v, channel = VOICE_CHANNELS v \<rparr>)"

definition classifyNotes :: "DetectedNote list \<Rightarrow> ClassifiedNote list" where
  "classifyNotes notes = map classifyNote notes"

text \<open>The clamp of the specification, to the closed range of note numbers.\<close>

definition clampPitch :: "int \<Rightarrow> int" where
  "clampPitch p = max 0 (min 127 p)"

section \<open>MIDI generator: data\<close>

datatype EventType = noteOn | noteOff

record MIDIEvent =
  ev_type :: EventType
  ev_pitch :: int
  ev_velocity :: int
  ev_time :: rat
  ev_channel :: int
  ev_duration :: "rat option"

text \<open>
  \<^verbatim>\<open>voices: { [key in Voice]?: MIDIEvent[] }\<close> is a partial map from voices to
  event lists.
\<close>

record MIDISequence =
  tempo :: rat
  events :: "MIDIEvent list"
  seq_duration :: rat
  voices :: "Voice \<Rightarrow> MIDIEvent list option"

definition DEFAULT_TEMPO :: rat where "DEFAULT_TEMPO = 120"
definition TICKS_PER_BEAT :: int where "TICKS_PER_BEAT = 480"
definition DEFAULT_VELOCITY :: int where "DEFAULT_VELOCITY = 100"
definition NOTE_OFF_VELOCITY :: int where "NOTE_OFF_VELOCITY = 0"

section \<open>MIDI generator: building a sequence\<close>

definition durationToBeats :: "rat \<Rightarrow> rat" where
  "durationToBeats d = d"

text \<open>The key of the first sort, \<^verbatim>\<open>a.timestamp || 0\<close>.\<close>

definition timestampOrZero :: "ClassifiedNote \<Rightarrow> rat" where
  "timestampOrZero n = (case timestamp n of None \<Rightarrow> 0 | Some t \<Rightarrow> t)"

definition noteOnEvent :: "rat \<Rightarrow> ClassifiedNote \<Rightarrow> MIDIEvent" where
  "noteOnEvent noteOnTime note =
     \<lparr> ev_type = noteOn, ev_pitch = pitch note, ev_velocity = DEFAULT_VELOCITY,
       ev_time = noteOnTime, ev_channel = channel note,
       ev_duration = Some (duration note) \<rparr>"

definition noteOffEvent :: "rat \<Rightarrow> ClassifiedNote \<Rightarrow> MIDIEvent" where
  "noteOffEvent noteOffTime note =
     \<lparr> ev_type = noteOff, ev_pitch = pitch note, ev_velocity = NOTE_OFF_VELOCITY,
       ev_time = noteOffTime, ev_channel = channel note,
       ev_duration = None \<rparr>"

text \<open>
  The state of the loop over the sorted notes: the cursor \<^verbatim>\<open>currentTime\<close>, the
  array \<^verbatim>\<open>events\<close> and the map \<^verbatim>\<open>voiceEvents\<close>. The sum
  \<^verbatim>\<open>currentTime + this.durationToBeats(note.duration)\<close> is a sum of doubles.
\<close>

record gen_state =
  currentTime :: rat
  gs_events :: "MIDIEvent list"
  voiceEvents :: "Voice \<Rightarrow> MIDIEvent list option"

definition initVoiceEvents :: "Voice \<Rightarrow> MIDIEvent list option" where
  "initVoiceEvents = [SOPRANO \<mapsto> [], ALTO \<mapsto> [], TENOR \<mapsto> [], BASS \<mapsto> []]"

definition noteStep :: "gen_state \<Rightarrow> ClassifiedNote \<Rightarrow> gen_state" where
  "noteStep st note =
     (let noteOnTime = currentTime st;
          noteOffTime = fadd (currentTime st) (durationToBeats (duration note));
          onE = noteOnEvent noteOnTime note;
          offE = noteOffEvent noteOffTime note
      in \<lparr> currentTime = noteOffTime,
           gs_events = gs_events st @ [onE, offE],
           voiceEvents =
             (case voiceEvents st (voice note) of
                None \<Rightarrow> voiceEvents st
              | Some es \<Rightarrow> (voiceEvents st)(voice note \<mapsto> es @ [onE, offE])) \<rparr>)"

definition initState :: gen_state where
  "initState = \<lparr> currentTime = 0, gs_events = [], voiceEvents = initVoiceEvents \<rparr>"

fun noteLoop :: "ClassifiedNote list \<Rightarrow> gen_state \<Rightarrow> gen_state" where
  "noteLoop [] st = st"
| "noteLoop (note # rest) st = noteLoop rest (noteStep st note)"

text \<open>
  \<^verbatim>\<open>Array.prototype.sort\<close> is stable, and both comparators are differences of
  keys; the rounded difference of two doubles has the sign of their exact difference,
  so each sort is the stable sort by that key. The tempo parameter has the default
  \<^verbatim>\<open>DEFAULT_TEMPO\<close>: \<open>None\<close> is the call without it.
\<close>

definition generateSequence :: "ClassifiedNote list \<Rightarrow> rat option \<Rightarrow> MIDISequence" where
  "generateSequence notes tempoArg =
     (let sortedNotes = sort_key timestampOrZero notes;
          st = noteLoop sortedNotes initState
      in \<lparr> tempo = (case tempoArg of None \<Rightarrow> DEFAULT_TEMPO | Some t \<Rightarrow> t),
           events = sort_key ev_time (gs_events st),
           seq_duration = currentTime st,
           voices = voiceEvents st \<rparr>)"

section \<open>MIDI generator: transforms\<close>

fun getChannelForVoice :: "Voice \<Rightarrow> int" where
  "getChannelForVoice SOPRANO = 0"
| "getChannelForVoice ALTO = 1"
| "getChannelForVoice TENOR = 2"
| "getChannelForVoice BASS = 3"

definition muteVoice :: "MIDISequence \<Rightarrow> Voice \<Rightarrow> MIDISequence" where
  "muteVoice sequence v =
     sequence \<lparr> events :=
       map (\<lambda>event. if ev_channel event = getChannelForVoice v
                     then event \<lparr> ev_velocity := 0 \<rparr> else event)
           (events sequence) \<rparr>"

text \<open>
  \<^verbatim>\<open>adjustTempo\<close>. The ratio \<^verbatim>\<open>sequence.tempo / newTempo\<close> is a quotient of
  doubles and every product with it a product of doubles. The test
  \<^verbatim>\<open>event.duration ? ... : event.duration\<close> leaves an absent duration and the
  duration 0 as they are. For the new tempo 0 the ratio is \<^verbatim>\<open>Infinity\<close> or
  \<^verbatim>\<open>NaN\<close> and the times of the result are not finite numbers: the result is
  \<open>None\<close>.
\<close>

definition adjustTempo :: "MIDISequence \<Rightarrow> rat \<Rightarrow> MIDISequence option" where
  "adjustTempo sequence newTempo =
     (case fdiv (tempo sequence) newTempo of
        None \<Rightarrow> None
      | Some tempoRatio \<Rightarrow>
          Some (sequence \<lparr> tempo := newTempo,
                          seq_duration := fmul (seq_duration sequence) tempoRatio,
                          events :=
                            map (\<lambda>event. event \<lparr> ev_time := fmul (ev_time event) tempoRatio,
                                                 ev_duration :=
                                                   (case ev_duration event of
                                                      None \<Rightarrow> None
                                                    | Some d \<Rightarrow>
                                                        if d \<noteq> 0 then Some (fmul d tempoRatio)
                                                        else Some d) \<rparr>)
                                (events sequence) \<rparr>))"

section \<open>MIDI generator: the encoder\<close>

text \<open>
  The bitwise operators of JavaScript first convert each operand with \<^verbatim>\<open>ToInt32\<close>
  (the value modulo \<open>2^32\<close>, read as a signed 32-bit integer); \<^verbatim>\<open>>>\<close> is the
  arithmetic shift by the count modulo 32. \<^verbatim>\<open>Math.round\<close> rounds to the nearest
  integer, a tie towards \<open>+\<infinity>\<close>, with no rounding error. \<^verbatim>\<open>new Uint8Array(bytes)\<close>
  stores every element modulo 256.
\<close>

definition toInt32 :: "int \<Rightarrow> int" where
  "toInt32 v = (v + 2 ^ 31) mod 2 ^ 32 - 2 ^ 31"

definition js_and :: "int \<Rightarrow> int \<Rightarrow> int" where
  "js_and a b = toInt32 a AND toInt32 b"

definition js_or :: "int \<Rightarrow> int \<Rightarrow> int" where
  "js_or a b = toInt32 a OR toInt32 b"

definition js_shr :: "int \<Rightarrow> nat \<Rightarrow> int" where
  "js_shr a k = toInt32 a div 2 ^ (k mod 32)"

definition js_round :: "rat \<Rightarrow> int" where
  "js_round x = \<lfloor>x + 1 / 2\<rfloor>"

definition toUint8 :: "int \<Rightarrow> int" where
  "toUint8 x = x mod 256"

definition stringToBytes :: "string \<Rightarrow> int list" where
  "stringToBytes str = map (\<lambda>c. of_char c) str"

text \<open>
  \<^verbatim>\<open>numberToBytes\<close>: the index \<^verbatim>\<open>i\<close> runs from \<^verbatim>\<open>length - 1\<close> down to 0, and
  each byte is put in front (\<^verbatim>\<open>unshift\<close>).
\<close>

fun numberToBytesLoop :: "int \<Rightarrow> nat \<Rightarrow> int list \<Rightarrow> int list" where
  "numberToBytesLoop num 0 bytes = bytes"
| "numberToBytesLoop num (Suc i) bytes =
     numberToBytesLoop num i (js_and (js_shr num (i * 8)) 0xff # bytes)"

definition numberToBytes :: "int \<Rightarrow> nat \<Rightarrow> int list" where
  "numberToBytes num len = numberToBytesLoop num len []"

definition metaEvent :: "int \<Rightarrow> int list \<Rightarrow> int list" where
  "metaEvent ty data = [0xff, ty] @ [int (length data)] @ data"

text \<open>
  \<^verbatim>\<open>variableLengthQuantity\<close>: the low seven bits first, then the loop
  \<^verbatim>\<open>while (value > 0)\<close>, each byte put in front of the ones before.
\<close>

function vlqLoop :: "int \<Rightarrow> int list \<Rightarrow> int list" where
  "vlqLoop v bytes =
     (if v > 0 then vlqLoop (js_shr v 7) (js_or (js_and v 0x7f) 0x80 # bytes)
      else bytes)"
  by pat_completeness auto

termination vlqLoop
proof (relation "measure (\<lambda>(v, bytes). nat v)")
  show "wf (measure (\<lambda>(v, bytes). nat v))" by simp
next
  fix v :: int and bytes :: "int list"
  assume pos: "0 < v"
  have "(v + 2 ^ 31) mod 2 ^ 32 \<le> v + 2 ^ 31"
    using pos by (intro zmod_le_nonneg_dividend) simp
  then have le: "toInt32 v \<le> v"
    by (simp add: toInt32_def)
  have "toInt32 v div 128 < v"
  proof (cases "toInt32 v \<le> 0")
    case True
    then have "toInt32 v div 128 \<le> 0" by (simp add: div_int_pos_iff)
    with pos show ?thesis by linarith
  next
    case False
    then have "toInt32 v div 128 < toInt32 v" by simp
    with le show ?thesis by linarith
  qed
  then show "((js_shr v 7, js_or (js_and v 0x7f) 0x80 # bytes), (v, bytes))
             \<in> measure (\<lambda>(v, bytes). nat v)"
    using pos by (simp add: js_shr_def)
qed

definition variableLengthQuantity :: "int \<Rightarrow> int list" where
  "variableLengthQuantity v = vlqLoop (js_shr v 7) [js_and v 0x7f]"

text \<open>
  The delta of one event, \<^verbatim>\<open>Math.round(event.time - lastTime) * 4\<close>, from the
  difference of two doubles.
\<close>

definition deltaTime :: "rat \<Rightarrow> MIDIEvent \<Rightarrow> int" where
  "deltaTime lastTime event = js_round (fsub (ev_time event) lastTime) * 4"

text \<open>
  \<^verbatim>\<open>Math.round(60000000 / sequence.tempo)\<close>, as \<^verbatim>\<open>numberToBytes\<close> reads it.
  For the tempo 0 the quotient is infinite, and \<^verbatim>\<open>ToInt32\<close>, which
  \<^verbatim>\<open>numberToBytes\<close> applies to its argument, gives 0 for it as for the number 0.
\<close>

definition tempoNumber :: "rat \<Rightarrow> int" where
  "tempoNumber t = (case fdiv 60000000 t of None \<Rightarrow> 0 | Some q \<Rightarrow> js_round q)"

text \<open>
  \<^verbatim>\<open>arr.push(...items)\<close> passes every element of \<^verbatim>\<open>items\<close> as an argument of one
  call. An engine accepts a bounded number of arguments and throws \<^verbatim>\<open>RangeError\<close>
  beyond it. The bound is a property of the engine and not of the source: it is the
  parameter \<open>maxArgs\<close>. A call with its arguments written out
  (\<^verbatim>\<open>bytes.push(0, 0, 0, 6)\<close>) is below every such bound.
\<close>

datatype js_error = RangeError

definition pushSpread :: "nat \<Rightarrow> int list \<Rightarrow> int list \<Rightarrow> js_error + int list" where
  "pushSpread maxArgs arr items =
     (if maxArgs < length items then Inl RangeError else Inr (arr @ items))"

text \<open>The three numbers pushed for an event after its delta.\<close>

definition noteBytes :: "MIDIEvent \<Rightarrow> int list" where
  "noteBytes event =
     (case ev_type event of
        noteOn \<Rightarrow> [0x90 + ev_channel event, ev_pitch event, ev_velocity event]
      | noteOff \<Rightarrow> [0x80 + ev_channel event, ev_pitch event, ev_velocity event])"

fun eventLoop :: "nat \<Rightarrow> MIDIEvent list \<Rightarrow> rat \<Rightarrow> int list \<Rightarrow> js_error + int list" where
  "eventLoop maxArgs [] lastTime trackData = Inr trackData"
| "eventLoop maxArgs (event # rest) lastTime trackData =
     (case pushSpread maxArgs trackData (variableLengthQuantity (deltaTime lastTime event)) of
        Inl e \<Rightarrow> Inl e
      | Inr trackData \<Rightarrow>
          eventLoop maxArgs rest (ev_time event) (trackData @ noteBytes event))"

text \<open>The array \<^verbatim>\<open>trackData\<close> when the track chunk is written.\<close>

definition trackDataOf :: "nat \<Rightarrow> MIDISequence \<Rightarrow> js_error + int list" where
  "trackDataOf maxArgs sequence =
     (let tempoData = numberToBytes (tempoNumber (tempo sequence)) 3
      in case pushSpread maxArgs [] (metaEvent 0x51 tempoData) of
           Inl e \<Rightarrow> Inl e
         | Inr trackData \<Rightarrow>
             (case eventLoop maxArgs (events sequence) 0 trackData of
                Inl e \<Rightarrow> Inl e
              | Inr trackData \<Rightarrow> pushSpread maxArgs trackData (metaEvent 0x2f [])))"

definition trackLengthBytes :: "int \<Rightarrow> int list" where
  "trackLengthBytes trackLength =
     [js_and (js_shr trackLength 24) 0xff, js_and (js_shr trackLength 16) 0xff,
      js_and (js_shr trackLength 8) 0xff, js_and trackLength 0xff]"

definition sequenceToMidiBytes :: "nat \<Rightarrow> MIDISequence \<Rightarrow> js_error + int list" where
  "sequenceToMidiBytes maxArgs sequence =
     (case pushSpread maxArgs [] (stringToBytes ''MThd'') of
        Inl e \<Rightarrow> Inl e
      | Inr bytes \<Rightarrow>
          (let bytes = bytes @ [0, 0, 0, 6];
               bytes = bytes @ [0, 0];
               bytes = bytes @ [0, 1];
               tpq = TICKS_PER_BEAT;
               bytes = bytes @ [js_and (js_shr tpq 8) 0xff, js_and tpq 0xff]
           in case trackDataOf maxArgs sequence of
                Inl e \<Rightarrow> Inl e
              | Inr trackData \<Rightarrow>
                  (case pushSpread maxArgs bytes (stringToBytes ''MTrk'') of
                     Inl e \<Rightarrow> Inl e
                   | Inr bytes \<Rightarrow>
                       (let trackLength = int (length trackData);
                            bytes = bytes @ trackLengthBytes trackLength
                        in case pushSpread maxArgs bytes trackData of
                             Inl e \<Rightarrow> Inl e
                           | Inr bytes \<Rightarrow> Inr (map toUint8 bytes)))))"

section \<open>Auxiliary definitions for the statements\<close>

text \<open>
  The events that the loop of \<^verbatim>\<open>generateSequence\<close> pushes for a list of notes,
  from a cursor: a pair for each note, in the order of the notes.
\<close>

fun emitted :: "ClassifiedNote list \<Rightarrow> rat \<Rightarrow> MIDIEvent list" where
  "emitted [] cur = []"
| "emitted (note # rest) cur =
     noteOnEvent cur note # noteOffEvent (fadd cur (durationToBeats (duration note))) note #
     emitted rest (fadd cur (durationToBeats (duration note)))"

text \<open>
  The cursor when the loop, started with the cursor \<open>cur\<close>, reaches the note of index
  \<open>i\<close>: the durations of the notes before it, added one after the other as doubles.
\<close>

definition cursorFrom :: "rat \<Rightarrow> ClassifiedNote list \<Rightarrow> nat \<Rightarrow> rat" where
  "cursorFrom cur ns i = foldl (\<lambda>c n. fadd c (durationToBeats (duration n))) cur (take i ns)"

definition cursorAt :: "ClassifiedNote list \<Rightarrow> nat \<Rightarrow> rat" where
  "cursorAt ns i = cursorFrom 0 ns i"

text \<open>The array \<^verbatim>\<open>events\<close> of \<^verbatim>\<open>generateSequence\<close> before its final sort.\<close>

definition emittedEvents :: "ClassifiedNote list \<Rightarrow> MIDIEvent list" where
  "emittedEvents notes = gs_events (noteLoop (sort_key timestampOrZero notes) initState)"

definition velocityOk :: "MIDIEvent \<Rightarrow> bool" where
  "velocityOk e =
     (case ev_type e of noteOn \<Rightarrow> ev_velocity e = 100 | noteOff \<Rightarrow> ev_velocity e = 0)"

text \<open>Reading a list of bytes as a big-endian number.\<close>

definition readBE :: "int list \<Rightarrow> int" where
  "readBE bs = foldl (\<lambda>acc b. acc * 256 + b) 0 bs"

text \<open>
  What the encoder pushes for the events when no push throws: for each event its
  delta as a variable-length quantity, then its three numbers. \<open>trackBytes\<close> is the
  whole track data: the tempo meta-event, the events, the end-of-track meta-event.
\<close>

definition eventBytes :: "rat \<Rightarrow> MIDIEvent \<Rightarrow> int list" where
  "eventBytes lastTime event =
     variableLengthQuantity (deltaTime lastTime event) @ noteBytes event"

fun eventStream :: "MIDIEvent list \<Rightarrow> rat \<Rightarrow> int list" where
  "eventStream [] lastTime = []"
| "eventStream (event # rest) lastTime =
     eventBytes lastTime event @ eventStream rest (ev_time event)"

definition trackBytes :: "MIDISequence \<Rightarrow> int list" where
  "trackBytes sequence =
     metaEvent 0x51 (numberToBytes (tempoNumber (tempo sequence)) 3) @
     eventStream (events sequence) 0 @ metaEvent 0x2f []"

text \<open>
  The bytes of the events as the output holds them: for each event the bytes of the
  delta, then the status with the channel, the pitch and the velocity, each modulo 256.
\<close>

fun encodedEvents :: "MIDIEvent list \<Rightarrow> rat \<Rightarrow> int list" where
  "encodedEvents [] lastTime = []"
| "encodedEvents (event # rest) lastTime =
     map toUint8 (variableLengthQuantity (deltaTime lastTime event)) @
     [((case ev_type event of noteOn \<Rightarrow> 0x90 | noteOff \<Rightarrow> 0x80) + ev_channel event) mod 256,
      ev_pitch event mod 256, ev_velocity event mod 256] @
     encodedEvents rest (ev_time event)"

text \<open>
  The contract of the specification for the encoder: the pitch and the velocity of
  every event are in \<open>[0, 127]\<close> and no delta is negative.
\<close>

fun deltasNonNegative :: "MIDIEvent list \<Rightarrow> rat \<Rightarrow> bool" where
  "deltasNonNegative [] lastTime = True"
| "deltasNonNegative (event # rest) lastTime =
     (0 \<le> deltaTime lastTime event \<and> deltasNonNegative rest (ev_time event))"

definition encoderContract :: "MIDISequence \<Rightarrow> bool" where
  "encoderContract sequence =
     (list_all (\<lambda>e. 0 \<le> ev_pitch e \<and> ev_pitch e \<le> 127 \<and>
                     0 \<le> ev_velocity e \<and> ev_velocity e \<le> 127) (events sequence) \<and>
      deltasNonNegative (events sequence) 0)"

text \<open>
  The value of a variable-length quantity, seven bits from each byte, the first byte
  the most significant; and its form: the continuation bit \<open>0x80\<close> on every byte but
  the last.
\<close>

definition vlqValue :: "int list \<Rightarrow> int" where
  "vlqValue bs = foldl (\<lambda>acc b. acc * 128 + b mod 128) 0 bs"

fun vlqWellFormed :: "int list \<Rightarrow> bool" where
  "vlqWellFormed [] = False"
| "vlqWellFormed [b] = (0 \<le> b \<and> b < 128)"
| "vlqWellFormed (b # bs) = (128 \<le> b \<and> b < 256 \<and> vlqWellFormed bs)"

text \<open>
  \<open>rescaleInRange T t1 t2 x\<close>: when a time \<open>x\<close> of a sequence at the tempo \<open>T\<close> is
  rescaled to the tempo \<open>t1\<close> and then to \<open>t2\<close>, and to \<open>t2\<close> directly, each of the
  three quotients and of the three products that \<^verbatim>\<open>adjustTempo\<close> computes is in the
  range of the doubles.
\<close>

definition rescaleInRange :: "rat \<Rightarrow> rat \<Rightarrow> rat \<Rightarrow> rat \<Rightarrow> bool" where
  "rescaleInRange T t1 t2 x =
     (inDoubleRange (T / t1) \<and> inDoubleRange (t1 / t2) \<and> inDoubleRange (T / t2) \<and>
      inDoubleRange (x * fl (T / t1)) \<and>
      inDoubleRange (fl (x * fl (T / t1)) * fl (t1 / t2)) \<and>
      inDoubleRange (x * fl (T / t2)))"

section \<open>Concrete inputs\<close>

text \<open>A detection with the given pitch, one beat long, with no optional field.\<close>

definition detection :: "int \<Rightarrow> DetectedNote" where
  "detection p = \<lparr> pitch = p, duration = 1, staffPosition = None, timestamp = None,
                    confidence = None \<rparr>"

text \<open>A classified note of the voice ALTO with the given pitch and duration.\<close>

definition altoNote :: "int \<Rightarrow> rat \<Rightarrow> ClassifiedNote" where
  "altoNote p d = \<lparr> pitch = p, duration = d, staffPosition = None, timestamp = None,
                    confidence = None, voice = ALTO, channel = 1 \<rparr>"

text \<open>
  Three notes, to be given in an order other than that of their timestamps: one at 5
  that lasts one beat, one at 2 that lasts two beats, and one at 7 of duration 0.
\<close>

definition lateNote :: ClassifiedNote where
  "lateNote = \<lparr> pitch = 60, duration = 1, staffPosition = None, timestamp = Some 5,
                 confidence = None, voice = ALTO, channel = 1 \<rparr>"

definition earlyNote :: ClassifiedNote where
  "earlyNote = \<lparr> pitch = 50, duration = 2, staffPosition = None, timestamp = Some 2,
                  confidence = None, voice = TENOR, channel = 2 \<rparr>"

definition restNote :: ClassifiedNote where
  "restNote = \<lparr> pitch = 55, duration = 0, staffPosition = None, timestamp = Some 7,
                 confidence = None, voice = TENOR, channel = 2 \<rparr>"

text \<open>A sequence with one event on the channel of SOPRANO and one on that of ALTO.\<close>

definition twoVoices :: MIDISequence where
  "twoVoices =
     \<lparr> tempo = 120,
       events = [\<lparr> ev_type = noteOn, ev_pitch = 72, ev_velocity = 100, ev_time = 0,
                   ev_channel = 0, ev_duration = Some 1 \<rparr>,
                 \<lparr> ev_type = noteOn, ev_pitch = 60, ev_velocity = 100, ev_time = 0,
                   ev_channel = 1, ev_duration = Some 1 \<rparr>],
       seq_duration = 1,
       voices = [SOPRANO \<mapsto> [\<lparr> ev_type = noteOn, ev_pitch = 72, ev_velocity = 100,
                                  ev_time = 0, ev_channel = 0, ev_duration = Some 1 \<rparr>]] \<rparr>"

text \<open>A sequence of one note of one beat: \<^verbatim>\<open>noteOn\<close> at 0 and \<^verbatim>\<open>noteOff\<close> at 1.\<close>

definition oneNote :: MIDISequence where
  "oneNote =
     \<lparr> tempo = 120,
       events = [\<lparr> ev_type = noteOn, ev_pitch = 60, ev_velocity = 100, ev_time = 0,
                   ev_channel = 1, ev_duration = Some 1 \<rparr>,
                 \<lparr> ev_type = noteOff, ev_pitch = 60, ev_velocity = 0, ev_time = 1,
                   ev_channel = 1, ev_duration = None \<rparr>],
       seq_duration = 1,
       voices = Map.empty \<rparr>"

text \<open>
  A sequence that breaks the contract in each way: the pitch 300, the velocity 200,
  and a second event earlier than the first.
\<close>

definition outOfRange :: MIDISequence where
  "outOfRange =
     \<lparr> tempo = 120,
       events = [\<lparr> ev_type = noteOn, ev_pitch = 300, ev_velocity = 200, ev_time = 2,
                   ev_channel = 0, ev_duration = Some 1 \<rparr>,
                 \<lparr> ev_type = noteOff, ev_pitch = 300, ev_velocity = 0, ev_time = 0,
                   ev_channel = 0, ev_duration = None \<rparr>],
       seq_duration = 2,
       voices = Map.empty \<rparr>"

text \<open>A sequence at the tempo 120 with one event, at the time 7.\<close>

definition atSeven :: MIDISequence where
  "atSeven =
     \<lparr> tempo = 120,
       events = [\<lparr> ev_type = noteOn, ev_pitch = 60, ev_velocity = 100, ev_time = 7,
                   ev_channel = 1, ev_duration = None \<rparr>],
       seq_duration = 7,
       voices = Map.empty \<rparr>"

section \<open>Properties of the rounding\<close>

text \<open>
  \<open>expo\<close> is the exponent of the binade; \<open>fl\<close> is monotone, leaves a double as it
  is (so it is idempotent, and exact on the integers up to \<open>2^53\<close>), and has a
  relative error of at most \<open>2^-53\<close>.
\<close>

lemma bitlen_powi:
  assumes "0 < p"
  shows "(2::rat) powi (bitlen p - 1) \<le> of_int p" and "(of_int p :: rat) < 2 powi (bitlen p)"
proof -
  from bitlen_bounds [OF assms]
  have lo: "2 ^ nat (bitlen p - 1) \<le> p" and hi: "p < 2 ^ nat (bitlen p)" by simp_all
  have b1: "1 \<le> bitlen p" using assms by (simp add: bitlen_alt_def)
  have "(2::rat) powi (bitlen p - 1) = 2 ^ nat (bitlen p - 1)"
    using b1 by (simp add: power_int_nonneg_exp)
  also have "\<dots> = of_int (2 ^ nat (bitlen p - 1))" by simp
  also have "\<dots> \<le> of_int p" using lo by (simp only: of_int_le_iff)
  finally show "(2::rat) powi (bitlen p - 1) \<le> of_int p" .
  have "(of_int p :: rat) < of_int (2 ^ nat (bitlen p))" using hi by (simp only: of_int_less_iff)
  also have "\<dots> = 2 ^ nat (bitlen p)" by simp
  also have "\<dots> = 2 powi (bitlen p)" using b1 by (simp add: power_int_nonneg_exp)
  finally show "(of_int p :: rat) < 2 powi (bitlen p)" .
qed

lemma expo_bounds:
  assumes "x \<noteq> 0"
  shows "2 powi (expo x) \<le> \<bar>x\<bar>" and "\<bar>x\<bar> < 2 powi (expo x + 1)"
proof -
  obtain p q where pq: "quotient_of \<bar>x\<bar> = (p, q)" by (cases "quotient_of \<bar>x\<bar>")
  have q: "0 < q" using pq by (rule quotient_of_denom_pos)
  have x: "\<bar>x\<bar> = of_int p / of_int q" using pq by (rule quotient_of_div)
  have p: "0 < p"
  proof -
    have "0 < (of_int p :: rat) / of_int q" using assms x by simp
    then show ?thesis using q by (simp add: zero_less_divide_iff)
  qed
  let ?e = "bitlen p - bitlen q"
  have qr: "(0::rat) < of_int q" using q by simp
  have hi: "\<bar>x\<bar> < 2 powi (?e + 1)"
  proof -
    have "of_int p < (2::rat) powi (bitlen p)" using bitlen_powi(2) [OF p] .
    also have "\<dots> = 2 powi (?e + 1) * 2 powi (bitlen q - 1)"
      by (simp flip: power_int_add)
    also have "\<dots> \<le> 2 powi (?e + 1) * of_int q"
      using bitlen_powi(1) [OF q] by (intro mult_left_mono) simp_all
    finally show ?thesis using qr unfolding x by (simp add: pos_divide_less_eq)
  qed
  have lo: "2 powi (?e - 1) \<le> \<bar>x\<bar>"
  proof -
    have "2 powi (?e - 1) * of_int q \<le> (2::rat) powi (?e - 1) * 2 powi (bitlen q)"
      using bitlen_powi(2) [OF q] by (intro mult_left_mono) simp_all
    also have "\<dots> = 2 powi (bitlen p - 1)" by (simp flip: power_int_add)
    also have "\<dots> \<le> of_int p" using bitlen_powi(1) [OF p] .
    finally show ?thesis using qr unfolding x by (simp add: pos_le_divide_eq)
  qed
  have e: "expo x = (if 2 powi ?e \<le> \<bar>x\<bar> then ?e else ?e - 1)"
    by (simp add: expo_def pq Let_def)
  show "2 powi (expo x) \<le> \<bar>x\<bar>" using lo unfolding e by simp
  show "\<bar>x\<bar> < 2 powi (expo x + 1)" using hi unfolding e by (simp add: not_le)
qed

lemma expo_unique:
  assumes "2 powi e \<le> \<bar>x\<bar>" "\<bar>x\<bar> < 2 powi (e + 1)"
  shows "expo x = e"
proof -
  have "(0::rat) < 2 powi e" by simp
  from this assms(1) have "0 < \<bar>x\<bar>" by (rule less_le_trans)
  then have x: "x \<noteq> 0" by simp
  have "(2::rat) powi (expo x) < 2 powi (e + 1)"
    using expo_bounds(1) [OF x] assms(2) by (rule le_less_trans)
  then have 1: "expo x < e + 1"
    by (metis not_less power_int_increasing one_le_numeral)
  have "(2::rat) powi e < 2 powi (expo x + 1)"
    using assms(1) expo_bounds(2) [OF x] by (rule le_less_trans)
  then have 2: "e < expo x + 1"
    by (metis not_less power_int_increasing one_le_numeral)
  from 1 2 show ?thesis by simp
qed

lemma expo_minus: "expo (- x) = expo x"
  by (simp add: expo_def)

lemma roundEven_of_int [simp]: "roundEven (of_int m) = m"
  by (simp add: roundEven_def)

lemma roundEven_floor: "\<lfloor>y\<rfloor> \<le> roundEven y" "roundEven y \<le> \<lfloor>y\<rfloor> + 1"
  by (simp_all add: roundEven_def Let_def)

lemma roundEven_error: "\<bar>of_int (roundEven y) - y\<bar> \<le> 1 / 2"
proof -
  define f where "f = \<lfloor>y\<rfloor>"
  have "of_int f \<le> y" "y < of_int f + 1" unfolding f_def by linarith+
  then have "\<bar>of_int (if y - of_int f < 1 / 2 then f
                       else if 1 / 2 < y - of_int f then f + 1
                       else if even f then f else f + 1) - y\<bar> \<le> 1 / 2"
    by (auto simp add: abs_if)
  then show ?thesis unfolding roundEven_def Let_def f_def [symmetric] .
qed

lemma roundEven_mono: "a \<le> b \<Longrightarrow> roundEven a \<le> roundEven b"
proof -
  assume ab: "a \<le> b"
  then have f: "\<lfloor>a\<rfloor> \<le> \<lfloor>b\<rfloor>" by (rule floor_mono)
  show ?thesis
  proof (cases "\<lfloor>a\<rfloor> = \<lfloor>b\<rfloor>")
    case True
    with ab show ?thesis by (auto simp add: roundEven_def Let_def)
  next
    case False
    with f have "\<lfloor>a\<rfloor> + 1 \<le> \<lfloor>b\<rfloor>" by simp
    with roundEven_floor(2) [of a] roundEven_floor(1) [of b] show ?thesis by linarith
  qed
qed

lemma fl_0 [simp]: "fl 0 = 0"
  by (simp add: fl_def)

lemma fl_minus: "fl (- x) = - fl x"
  by (simp add: fl_def expo_minus Let_def)


lemma scaled_bounds:
  assumes "x \<noteq> 0"
  shows "2 ^ 52 \<le> \<bar>x\<bar> / 2 powi (expo x - 52)" and "\<bar>x\<bar> / 2 powi (expo x - 52) < 2 ^ 53"
proof -
  have s: "(0::rat) < 2 powi (expo x - 52)" by simp
  have "2 ^ 52 * 2 powi (expo x - 52) = (2::rat) powi (52 + (expo x - 52))"
    by (subst power_int_add) simp_all
  then have a: "2 ^ 52 * 2 powi (expo x - 52) = (2::rat) powi (expo x)" by simp
  have "2 ^ 53 * 2 powi (expo x - 52) = (2::rat) powi (53 + (expo x - 52))"
    by (subst power_int_add) simp_all
  then have b: "2 ^ 53 * 2 powi (expo x - 52) = (2::rat) powi (expo x + 1)"
    by (simp add: add.commute)
  show "2 ^ 52 \<le> \<bar>x\<bar> / 2 powi (expo x - 52)"
    using expo_bounds(1) [OF assms] s a by (simp only: pos_le_divide_eq)
  show "\<bar>x\<bar> / 2 powi (expo x - 52) < 2 ^ 53"
    using expo_bounds(2) [OF assms] s b by (simp only: pos_divide_less_eq)
qed

lemma roundEven_scaled:
  assumes "x \<noteq> 0"
  shows "2 ^ 52 \<le> roundEven (\<bar>x\<bar> / 2 powi (expo x - 52))"
    and "roundEven (\<bar>x\<bar> / 2 powi (expo x - 52)) \<le> 2 ^ 53"
proof -
  have "roundEven (of_int (2 ^ 52)) \<le> roundEven (\<bar>x\<bar> / 2 powi (expo x - 52))"
    using scaled_bounds(1) [OF assms] by (intro roundEven_mono) simp
  then show "2 ^ 52 \<le> roundEven (\<bar>x\<bar> / 2 powi (expo x - 52))"
    by (simp only: roundEven_of_int)
  have "roundEven (\<bar>x\<bar> / 2 powi (expo x - 52)) \<le> roundEven (of_int (2 ^ 53))"
    using scaled_bounds(2) [OF assms] by (intro roundEven_mono) simp
  then show "roundEven (\<bar>x\<bar> / 2 powi (expo x - 52)) \<le> 2 ^ 53"
    by (simp only: roundEven_of_int)
qed

lemma fl_pos:
  assumes "0 < x"
  shows "fl x = of_int (roundEven (x / 2 powi (expo x - 52))) * 2 powi (expo x - 52)"
  using assms by (simp add: fl_def Let_def)

lemma fl_pos_bounds:
  assumes "0 < x"
  shows "2 powi (expo x) \<le> fl x" and "fl x \<le> 2 powi (expo x + 1)"
proof -
  have x: "x \<noteq> 0" "\<bar>x\<bar> = x" using assms by simp_all
  let ?s = "(2::rat) powi (expo x - 52)"
  let ?m = "roundEven (x / ?s)"
  have s: "0 < ?s" by simp
  have "2 ^ 52 * ?s = (2::rat) powi (52 + (expo x - 52))"
    by (subst power_int_add) simp_all
  then have a: "2 ^ 52 * ?s = (2::rat) powi (expo x)" by simp
  have "2 ^ 53 * ?s = (2::rat) powi (53 + (expo x - 52))"
    by (subst power_int_add) simp_all
  then have b: "2 ^ 53 * ?s = (2::rat) powi (expo x + 1)"
    by (simp add: add.commute)
  have m: "2 ^ 52 \<le> ?m" "?m \<le> 2 ^ 53" using roundEven_scaled [OF x(1)] x(2) by simp_all
  have "(of_int (2 ^ 52) :: rat) \<le> of_int ?m" using m(1) by (simp only: of_int_le_iff)
  then have "2 ^ 52 * ?s \<le> of_int ?m * ?s" using s by (intro mult_right_mono) simp_all
  then show "2 powi (expo x) \<le> fl x" unfolding fl_pos [OF assms] a .
  have "(of_int ?m :: rat) \<le> of_int (2 ^ 53)" using m(2) by (simp only: of_int_le_iff)
  then have "of_int ?m * ?s \<le> 2 ^ 53 * ?s" using s by (intro mult_right_mono) simp_all
  then show "fl x \<le> 2 powi (expo x + 1)" unfolding fl_pos [OF assms] b .
qed

lemma expo_mono:
  assumes "0 < x" "x \<le> y"
  shows "expo x \<le> expo y"
proof -
  have x: "x \<noteq> 0" "\<bar>x\<bar> = x" and y: "y \<noteq> 0" "\<bar>y\<bar> = y" using assms by simp_all
  have "(2::rat) powi (expo x) \<le> x" using expo_bounds(1) [OF x(1)] x(2) by simp
  also have "\<dots> \<le> y" by fact
  also have "\<dots> < 2 powi (expo y + 1)" using expo_bounds(2) [OF y(1)] y(2) by simp
  finally have "expo x < expo y + 1"
    by (metis not_less power_int_increasing one_le_numeral)
  then show ?thesis by simp
qed

lemma fl_mono_pos:
  assumes "0 < x" "x \<le> y"
  shows "fl x \<le> fl y"
proof -
  have y: "0 < y" using assms by simp
  have e: "expo x \<le> expo y" using assms by (rule expo_mono)
  show ?thesis
  proof (cases "expo x = expo y")
    case True
    let ?s = "(2::rat) powi (expo y - 52)"
    have s: "0 < ?s" by simp
    have "x / ?s \<le> y / ?s" using assms(2) s by (simp add: divide_right_mono)
    then have "roundEven (x / ?s) \<le> roundEven (y / ?s)" by (rule roundEven_mono)
    then have "(of_int (roundEven (x / ?s)) :: rat) \<le> of_int (roundEven (y / ?s))"
      by (simp only: of_int_le_iff)
    then have "of_int (roundEven (x / ?s)) * ?s \<le> of_int (roundEven (y / ?s)) * ?s"
      using s by (intro mult_right_mono) simp_all
    then show ?thesis unfolding fl_pos [OF assms(1)] fl_pos [OF y] True .
  next
    case False
    with e have "expo x + 1 \<le> expo y" by simp
    then have "(2::rat) powi (expo x + 1) \<le> 2 powi (expo y)"
      by (intro power_int_increasing) simp_all
    with fl_pos_bounds(2) [OF assms(1)] fl_pos_bounds(1) [OF y] show ?thesis by linarith
  qed
qed

lemma fl_sign: "0 \<le> x \<Longrightarrow> 0 \<le> fl x"
proof (cases "x = 0")
  case True
  then show ?thesis by simp
next
  case False
  assume "0 \<le> x"
  with False have "0 < x" by simp
  from fl_pos_bounds(1) [OF this] have "(2::rat) powi (expo x) \<le> fl x" .
  moreover have "(0::rat) < 2 powi (expo x)" by simp
  ultimately show ?thesis by linarith
qed

lemma fl_mono: "x \<le> y \<Longrightarrow> fl x \<le> fl y"
proof -
  assume xy: "x \<le> y"
  consider "0 < x" | "x \<le> 0" "0 \<le> y" | "y < 0" by linarith
  then show ?thesis
  proof cases
    case 1
    then show ?thesis using xy by (rule fl_mono_pos)
  next
    case 2
    have "0 \<le> fl y" using 2(2) by (rule fl_sign)
    moreover have "0 \<le> fl (- x)" using 2(1) by (intro fl_sign) simp
    ultimately show ?thesis by (simp add: fl_minus)
  next
    case 3
    then have "0 < - y" "- y \<le> - x" using xy by simp_all
    then have "fl (- y) \<le> fl (- x)" by (rule fl_mono_pos)
    then show ?thesis by (simp add: fl_minus)
  qed
qed


lemma fl_exact_pos:
  assumes x: "x = of_int m * 2 powi k" and m: "0 < m" "m \<le> 2 ^ 53"
  shows "fl x = x"
proof -
  have k: "(0::rat) < 2 powi k" by simp
  have pos: "0 < x" unfolding x using m(1) k by (simp add: zero_less_mult_iff)
  then have x0: "x \<noteq> 0" "\<bar>x\<bar> = x" by simp_all
  let ?e = "expo x"
  let ?s = "(2::rat) powi (?e - 52)"
  have "(2::rat) powi ?e \<le> x" using expo_bounds(1) [OF x0(1)] x0(2) by simp
  also have "x \<le> of_int (2 ^ 53) * 2 powi k"
    unfolding x using m(2) k by (intro mult_right_mono) (simp_all only: of_int_le_iff)
  also have "\<dots> = 2 powi (53 + k)" by (subst power_int_add) simp_all
  finally have "?e \<le> 53 + k"
    by (metis not_less power_int_strict_increasing one_less_numeral_iff semiring_norm(76))
  then consider "?e = 53 + k" | "0 \<le> k - ?e + 52" by linarith
  then have "\<exists>j. x / ?s = of_int j"
  proof cases
    case 1
    have "of_int (2 ^ 53) * (2::rat) powi k = 2 powi (53 + k)" by (subst power_int_add) simp_all
    also have "\<dots> \<le> x" using expo_bounds(1) [OF x0(1)] x0(2) 1 by simp
    finally have "(of_int (2 ^ 53) :: rat) \<le> of_int m"
      unfolding x using k by (simp only: mult_le_cancel_right_pos)
    then have "2 ^ 53 \<le> m" by (simp only: of_int_le_iff)
    with m(2) have m53: "m = 2 ^ 53" by simp
    have "?s = 2 powi (1 + k)" using 1 by simp
    also have "\<dots> = 2 * 2 powi k" by (subst power_int_add) simp_all
    finally have "x / ?s = of_int m / 2" unfolding x by simp
    also have "\<dots> = of_int (2 ^ 52)" unfolding m53 by simp
    finally show ?thesis by blast
  next
    case 2
    have "x / ?s = of_int m * (2 powi k / ?s)" unfolding x by simp
    also have "2 powi k / ?s = (2::rat) powi (k - (?e - 52))"
      by (subst power_int_diff) simp_all
    also have "\<dots> = 2 ^ nat (k - ?e + 52)"
      using 2 by (simp add: power_int_nonneg_exp algebra_simps)
    also have "of_int m * 2 ^ nat (k - ?e + 52) = (of_int (m * 2 ^ nat (k - ?e + 52)) :: rat)"
      by simp
    finally show ?thesis by blast
  qed
  then obtain j where j: "x / ?s = of_int j" ..
  have "fl x = of_int (roundEven (x / ?s)) * ?s" using pos by (rule fl_pos)
  also have "\<dots> = x / ?s * ?s" unfolding j by simp
  also have "\<dots> = x" by simp
  finally show ?thesis .
qed

lemma fl_exact:
  assumes x: "x = of_int m * 2 powi k" and m: "\<bar>m\<bar> \<le> 2 ^ 53"
  shows "fl x = x"
proof -
  consider "m = 0" | "0 < m" | "m < 0" by linarith
  then show ?thesis
  proof cases
    case 1
    then show ?thesis using x by simp
  next
    case 2
    with m have "m \<le> 2 ^ 53" by simp
    with x 2 show ?thesis by (intro fl_exact_pos [of x m k])
  next
    case 3
    with m have "0 < - m" "- m \<le> 2 ^ 53" by simp_all
    moreover have "- x = of_int (- m) * 2 powi k" using x by simp
    ultimately have "fl (- x) = - x" by (intro fl_exact_pos [of "- x" "- m" k])
    then show ?thesis by (simp add: fl_minus)
  qed
qed

lemma fl_of_int: "\<bar>k\<bar> \<le> 2 ^ 53 \<Longrightarrow> fl (of_int k) = of_int k"
  using fl_exact [of "of_int k" k 0] by simp

lemma fl_idem: "fl (fl x) = fl x"
proof -
  have pos: "fl (fl y) = fl y" if "0 < y" for y
  proof -
    have y: "y \<noteq> 0" "\<bar>y\<bar> = y" using that by simp_all
    let ?m = "roundEven (y / 2 powi (expo y - 52))"
    have m: "2 ^ 52 \<le> ?m" "?m \<le> 2 ^ 53" using roundEven_scaled [OF y(1)] y(2) by simp_all
    have "fl y = of_int ?m * 2 powi (expo y - 52)" using that by (rule fl_pos)
    moreover have "0 < ?m" using m(1) by (rule less_le_trans [rotated]) simp
    ultimately show ?thesis using m(2) by (intro fl_exact_pos [of "fl y" ?m "expo y - 52"])
  qed
  consider "x = 0" | "0 < x" | "x < 0" by linarith
  then show ?thesis
  proof cases
    case 1
    then show ?thesis by simp
  next
    case 2
    then show ?thesis by (rule pos)
  next
    case 3
    then have "fl (fl (- x)) = fl (- x)" by (intro pos) simp
    then show ?thesis by (simp add: fl_minus)
  qed
qed

lemma fl_error_pos:
  assumes "0 < x"
  shows "\<bar>fl x - x\<bar> \<le> x / 2 ^ 53"
proof -
  have x: "x \<noteq> 0" "\<bar>x\<bar> = x" using assms by simp_all
  let ?s = "(2::rat) powi (expo x - 52)"
  let ?m = "roundEven (x / ?s)"
  have s: "0 < ?s" by simp
  have "fl x - x = (of_int ?m - x / ?s) * ?s"
    unfolding fl_pos [OF assms] by (simp add: algebra_simps)
  then have "\<bar>fl x - x\<bar> = \<bar>of_int ?m - x / ?s\<bar> * ?s"
    using s by (simp add: abs_mult)
  also have "\<dots> \<le> 1 / 2 * ?s"
    using roundEven_error [of "x / ?s"] s by (intro mult_right_mono) simp_all
  also have "\<dots> = 2 powi (expo x) / 2 ^ 53"
  proof -
    have "(2::rat) powi (expo x) = 2 powi (52 + (expo x - 52))" by simp
    also have "\<dots> = 2 ^ 52 * ?s" by (subst power_int_add) simp_all
    finally show ?thesis by simp
  qed
  also have "\<dots> \<le> x / 2 ^ 53"
    using expo_bounds(1) [OF x(1)] x(2) by (simp add: divide_right_mono)
  finally show ?thesis .
qed

lemma fl_error: "\<bar>fl x - x\<bar> \<le> \<bar>x\<bar> / 2 ^ 53"
proof -
  consider "x = 0" | "0 < x" | "x < 0" by linarith
  then show ?thesis
  proof cases
    case 1
    then show ?thesis by simp
  next
    case 2
    then show ?thesis using fl_error_pos [of x] by simp
  next
    case 3
    then have "\<bar>fl (- x) - (- x)\<bar> \<le> (- x) / 2 ^ 53" by (intro fl_error_pos) simp
    moreover have "\<bar>fl (- x) - (- x)\<bar> = \<bar>fl x - x\<bar>"
      unfolding fl_minus by (simp add: abs_minus_commute)
    ultimately show ?thesis using 3 by simp
  qed
qed

lemma fl_numeral: "numeral n \<le> (2::int) ^ 53 \<Longrightarrow> fl (numeral n) = numeral n"
  using fl_of_int [of "numeral n"] by simp

lemma fl_1 [simp]: "fl 1 = 1"
  using fl_of_int [of 1] by simp

lemma minNormal_le: "minNormal \<le> 1 / 1024"
proof -
  have "(2::rat) powi (- 1022) \<le> 2 powi (- 10)"
    by (rule power_int_increasing) simp_all
  moreover have "(2::rat) powi (- 10) = 1 / 1024" by (simp add: power_int_minus)
  ultimately show ?thesis unfolding minNormal_def by simp
qed

lemma maxDouble_ge: "1024 \<le> maxDouble"
proof -
  have a: "(2::rat) ^ 10 \<le> 2 ^ 971" by (rule power_increasing) simp_all
  have b: "(1::rat) \<le> 2 ^ 53 - 1" by simp
  have c: "(1::rat) * 2 ^ 10 = 1024" by simp
  have "(1::rat) * 2 ^ 10 \<le> (2 ^ 53 - 1) * 2 ^ 971"
    using b a by (rule mult_mono) simp_all
  then show ?thesis unfolding maxDouble_def c .
qed

lemma inDoubleRange_mid:
  assumes "1 / 1024 \<le> \<bar>x\<bar>" and "\<bar>x\<bar> \<le> 1024"
  shows "inDoubleRange x"
proof -
  from minNormal_le assms(1) have "minNormal \<le> \<bar>x\<bar>" by (rule order_trans)
  moreover from assms(2) maxDouble_ge have "\<bar>x\<bar> \<le> maxDouble" by (rule order_trans)
  ultimately show ?thesis unfolding inDoubleRange_def by blast
qed

section \<open>Properties of the voice classifier\<close>

lemma primaryVoice_soprano_iff:
  "primaryVoice p = SOPRANO \<longleftrightarrow> 72 \<le> p \<and> p \<le> 96"
  by (simp add: primaryVoice_def isInRange_def)

lemma voice_classifyNote:
  "voice (classifyNote note) = refineVoice (staffPosition note) (primaryVoice (pitch note))"
  by (simp add: classifyNote_def Let_def)

lemma primaryVoice_clampPitch: "primaryVoice (clampPitch p) = primaryVoice p"
  by (simp add: primaryVoice_def isInRange_def clampPitch_def max_def min_def)

text \<open>
  C7. Without a staff position, every pitch from 72 to 96 is classified SOPRANO, and
  the pitches 71 and 97 next to the range are not.
\<close>

theorem classifyNote_soprano_range:
  "staffPosition note = None \<Longrightarrow>
     (72 \<le> pitch note \<and> pitch note \<le> 96 \<longrightarrow> voice (classifyNote note) = SOPRANO) \<and>
     (pitch note = 71 \<or> pitch note = 97 \<longrightarrow> voice (classifyNote note) \<noteq> SOPRANO)"
  by (auto simp add: voice_classifyNote refineVoice_def primaryVoice_soprano_iff)

theorem classifyNote_soprano_range_witness:
  "voice (classifyNote (detection 72)) = SOPRANO \<and>
   voice (classifyNote (detection 96)) = SOPRANO \<and>
   voice (classifyNote (detection 71)) \<noteq> SOPRANO \<and>
   voice (classifyNote (detection 97)) \<noteq> SOPRANO"
  using classifyNote_soprano_range [of "detection 72"]
        classifyNote_soprano_range [of "detection 96"]
        classifyNote_soprano_range [of "detection 71"]
        classifyNote_soprano_range [of "detection 97"]
  by (simp add: detection_def)

text \<open>
  C3, as stated, fails: \<^verbatim>\<open>classifyNote\<close> has no clamp, and the result keeps the
  pitch it was given. For the pitch 200 the result differs from the result for the
  clamped pitch 127.
\<close>

theorem classifyNote_clamped_counterexample:
  "classifyNote (detection 200) \<noteq> classifyNote ((detection 200) \<lparr> pitch := clampPitch 200 \<rparr>)
   \<and> pitch (classifyNote (detection 200)) = 200
   \<and> pitch (classifyNote ((detection 200) \<lparr> pitch := clampPitch 200 \<rparr>)) = 127"
  by (simp add: classifyNote_def detection_def clampPitch_def Let_def)

text \<open>
  C3, amended. \<^verbatim>\<open>classifyNote\<close> is total and rejects no pitch; the voice and the
  channel of the result are those of the clamped pitch, and the fields of the
  detection, the pitch among them, are passed through unchanged.
\<close>

theorem classifyNote_pitch_passed_through:
  "voice (classifyNote note) = voice (classifyNote (note \<lparr> pitch := clampPitch (pitch note) \<rparr>)) \<and>
   channel (classifyNote note) = channel (classifyNote (note \<lparr> pitch := clampPitch (pitch note) \<rparr>)) \<and>
   pitch (classifyNote note) = pitch note \<and>
   DetectedNote.truncate (classifyNote note) = note"
  by (simp add: classifyNote_def Let_def primaryVoice_clampPitch DetectedNote.truncate_def)

section \<open>Properties of the sequence builder\<close>

lemma gs_events_noteLoop:
  "gs_events (noteLoop ns st) = gs_events st @ emitted ns (currentTime st)"
  by (induction ns arbitrary: st) (simp_all add: noteStep_def Let_def)

lemma length_emitted: "length (emitted ns cur) = 2 * length ns"
  by (induction ns arbitrary: cur) simp_all

lemma events_generateSequence:
  "events (generateSequence notes tempoArg) = sort_key ev_time (emittedEvents notes)"
  by (simp add: generateSequence_def emittedEvents_def initState_def Let_def)

lemma emittedEvents_eq:
  "emittedEvents notes = emitted (sort_key timestampOrZero notes) 0"
  by (simp add: emittedEvents_def gs_events_noteLoop initState_def)

text \<open>
  C6. The sequence built from a list of notes has twice as many events as there are
  notes, and its events are sorted by time, in non-decreasing order. This holds for
  every list of notes and every tempo, the empty list and the default tempo included.
\<close>

theorem generateSequence_length_sorted:
  "length (events (generateSequence notes tempoArg)) = 2 * length notes \<and>
   sorted (map ev_time (events (generateSequence notes tempoArg)))"
  by (simp add: events_generateSequence emittedEvents_eq length_emitted)

lemma velocityOk_emitted: "e \<in> set (emitted ns cur) \<Longrightarrow> velocityOk e"
  by (induction ns arbitrary: cur)
     (auto simp add: velocityOk_def noteOnEvent_def noteOffEvent_def
        DEFAULT_VELOCITY_def NOTE_OFF_VELOCITY_def)

lemma velocityOk_voiceEvents_step:
  assumes "\<And>v es e. voiceEvents st v = Some es \<Longrightarrow> e \<in> set es \<Longrightarrow> velocityOk e"
    and "voiceEvents (noteStep st n) v = Some es" and "e \<in> set es"
  shows "velocityOk e"
proof (cases "voiceEvents st (voice n)")
  case None
  then have "voiceEvents (noteStep st n) = voiceEvents st"
    by (simp add: noteStep_def Let_def)
  with assms show ?thesis by simp
next
  case (Some old)
  then have upd: "voiceEvents (noteStep st n) =
      (voiceEvents st)(voice n \<mapsto> old @ [noteOnEvent (currentTime st) n,
         noteOffEvent (fadd (currentTime st) (durationToBeats (duration n))) n])"
    by (simp add: noteStep_def Let_def)
  show ?thesis
  proof (cases "v = voice n")
    case True
    with upd assms(2) have es: "es = old @ [noteOnEvent (currentTime st) n,
         noteOffEvent (fadd (currentTime st) (durationToBeats (duration n))) n]"
      by simp
    have "velocityOk (noteOnEvent (currentTime st) n)"
      "velocityOk (noteOffEvent (fadd (currentTime st) (durationToBeats (duration n))) n)"
      by (simp_all add: velocityOk_def noteOnEvent_def noteOffEvent_def
          DEFAULT_VELOCITY_def NOTE_OFF_VELOCITY_def)
    moreover have "e' \<in> set old \<Longrightarrow> velocityOk e'" for e'
      using assms(1) Some by blast
    ultimately show ?thesis using es assms(3) by auto
  next
    case False
    with upd assms(2) have "voiceEvents st v = Some es" by simp
    with assms(1,3) show ?thesis by blast
  qed
qed

lemma velocityOk_voiceEvents_loop:
  "(\<And>v es e. voiceEvents st v = Some es \<Longrightarrow> e \<in> set es \<Longrightarrow> velocityOk e) \<Longrightarrow>
   voiceEvents (noteLoop ns st) v = Some es \<Longrightarrow> e \<in> set es \<Longrightarrow> velocityOk e"
proof (induction ns arbitrary: st)
  case Nil
  then show ?case by simp
next
  case (Cons n ns)
  show ?case
  proof (rule Cons.IH [of "noteStep st n"])
    show "velocityOk e'" if "voiceEvents (noteStep st n) v' = Some es'" "e' \<in> set es'" for v' es' e'
      using velocityOk_voiceEvents_step [of st n v' es' e'] Cons.prems(1) that by blast
    show "voiceEvents (noteLoop ns (noteStep st n)) v = Some es" using Cons.prems(2) by simp
    show "e \<in> set es" by fact
  qed
qed

lemma initVoiceEvents_empty: "initVoiceEvents v = Some es \<Longrightarrow> es = []"
  by (cases v) (simp_all add: initVoiceEvents_def)

text \<open>
  C10. In the built sequence, in the flat list of events and in every sub-stream of a
  voice, each \<^verbatim>\<open>noteOn\<close> event has the velocity 100 and each \<^verbatim>\<open>noteOff\<close> event
  the velocity 0, whatever the fields of the notes are.
\<close>

theorem generateSequence_velocity:
  "(\<forall>e \<in> set (events (generateSequence notes tempoArg)).
      (ev_type e = noteOn \<longrightarrow> ev_velocity e = 100) \<and>
      (ev_type e = noteOff \<longrightarrow> ev_velocity e = 0)) \<and>
   (\<forall>v es. voices (generateSequence notes tempoArg) v = Some es \<longrightarrow>
      (\<forall>e \<in> set es. (ev_type e = noteOn \<longrightarrow> ev_velocity e = 100) \<and>
                      (ev_type e = noteOff \<longrightarrow> ev_velocity e = 0)))"
proof -
  have ok: "velocityOk e \<Longrightarrow> (ev_type e = noteOn \<longrightarrow> ev_velocity e = 100) \<and>
      (ev_type e = noteOff \<longrightarrow> ev_velocity e = 0)" for e
    by (simp add: velocityOk_def split: EventType.splits)
  have 1: "velocityOk e" if "e \<in> set (events (generateSequence notes tempoArg))" for e
    using that by (simp add: events_generateSequence emittedEvents_eq velocityOk_emitted)
  have 2: "velocityOk e"
    if "voices (generateSequence notes tempoArg) v = Some es" "e \<in> set es" for v es e
  proof -
    from that(1) have "voiceEvents (noteLoop (sort_key timestampOrZero notes) initState) v = Some es"
      by (simp add: generateSequence_def Let_def initState_def)
    moreover have "velocityOk e'" if "voiceEvents initState v' = Some es'" "e' \<in> set es'" for v' es' e'
      using that initVoiceEvents_empty [of v' es'] by (simp add: initState_def)
    ultimately show ?thesis
      using velocityOk_voiceEvents_loop [of initState _ v es e] that(2) by blast
  qed
  show ?thesis using ok 1 2 by blast
qed

lemma altoNote_fields:
  "pitch (altoNote p d) = p" "duration (altoNote p d) = d" "channel (altoNote p d) = 1"
  "voice (altoNote p d) = ALTO" "timestamp (altoNote p d) = None"
  by (simp_all add: altoNote_def)

lemma events_single:
  "events (generateSequence [altoNote p d] None) =
     sort_key ev_time [noteOnEvent 0 (altoNote p d), noteOffEvent (fl d) (altoNote p d)]"
  by (simp add: events_generateSequence emittedEvents_eq durationToBeats_def fadd_def
      altoNote_fields)

theorem generateSequence_velocity_witness:
  "ev_type (events (generateSequence [altoNote 60 1] None) ! 0) = noteOn \<and>
   ev_velocity (events (generateSequence [altoNote 60 1] None) ! 0) = 100 \<and>
   ev_type (events (generateSequence [altoNote 60 1] None) ! 1) = noteOff \<and>
   ev_velocity (events (generateSequence [altoNote 60 1] None) ! 1) = 0 \<and>
   voices (generateSequence [altoNote 60 1] None) ALTO =
     Some (events (generateSequence [altoNote 60 1] None))"
proof -
  let ?s = "generateSequence [altoNote 60 1] None"
  have ev: "events ?s = [noteOnEvent 0 (altoNote 60 1), noteOffEvent 1 (altoNote 60 1)]"
    by (simp add: events_single noteOnEvent_def noteOffEvent_def)
  have vo: "voices ?s ALTO = Some [noteOnEvent 0 (altoNote 60 1), noteOffEvent 1 (altoNote 60 1)]"
    by (simp add: generateSequence_def Let_def noteStep_def initState_def
        initVoiceEvents_def durationToBeats_def fadd_def altoNote_fields)
  have ty: "ev_type (events ?s ! 0) = noteOn" "ev_type (events ?s ! 1) = noteOff"
    using ev by (simp_all add: noteOnEvent_def noteOffEvent_def)
  have mem: "events ?s ! 0 \<in> set (events ?s)" "events ?s ! 1 \<in> set (events ?s)"
    using ev by simp_all
  from generateSequence_velocity [of "[altoNote 60 1]" None] mem ty
  have "ev_velocity (events ?s ! 0) = 100" "ev_velocity (events ?s ! 1) = 0"
    by blast+
  with ty ev vo show ?thesis by simp
qed

lemma cursorFrom_double:
  "fl cur = cur \<Longrightarrow> fl (cursorFrom cur ns i) = cursorFrom cur ns i"
proof -
  have "fl c = c \<Longrightarrow>
        fl (foldl (\<lambda>c n. fadd c (durationToBeats (duration n))) c xs) =
        foldl (\<lambda>c n. fadd c (durationToBeats (duration n))) c xs"
    for c and xs :: "ClassifiedNote list"
    by (induction xs arbitrary: c) (simp_all add: fadd_def fl_idem)
  then show "fl cur = cur \<Longrightarrow> fl (cursorFrom cur ns i) = cursorFrom cur ns i"
    unfolding cursorFrom_def .
qed

lemma emitted_nth:
  "i < length ns \<Longrightarrow>
     emitted ns cur ! (2 * i) = noteOnEvent (cursorFrom cur ns i) (ns ! i) \<and>
     emitted ns cur ! (2 * i + 1) =
       noteOffEvent (fadd (cursorFrom cur ns i) (durationToBeats (duration (ns ! i)))) (ns ! i)"
proof (induction ns arbitrary: i cur)
  case Nil
  then show ?case by simp
next
  case (Cons n ns)
  show ?case
  proof (cases i)
    case 0
    then show ?thesis by (simp add: cursorFrom_def)
  next
    case (Suc j)
    with Cons.prems have "j < length ns" by simp
    from Cons.IH [OF this, of "fadd cur (durationToBeats (duration n))"] Suc
    show ?thesis by (simp add: cursorFrom_def)
  qed
qed

text \<open>
  C2, amended. For the note of index \<open>i\<close> in the order of the timestamps, the loop
  pushes a \<^verbatim>\<open>noteOn\<close> at the cursor and a \<^verbatim>\<open>noteOff\<close> at the sum, as doubles, of
  the cursor and the duration of the note, taken as it is: no minimum replaces a
  duration that is zero or negative. The \<^verbatim>\<open>noteOff\<close> is not earlier than the
  \<^verbatim>\<open>noteOn\<close> when the duration is not negative, and at the same time when the
  duration is 0. Both events are in the built sequence.
\<close>

theorem generateSequence_on_off_pairs:
  "i < length notes \<Longrightarrow>
     (let sortedNotes = sort_key timestampOrZero notes;
          n = sortedNotes ! i;
          onE = emittedEvents notes ! (2 * i);
          offE = emittedEvents notes ! (2 * i + 1)
      in onE = noteOnEvent (cursorAt sortedNotes i) n \<and>
         offE = noteOffEvent (fadd (cursorAt sortedNotes i) (duration n)) n \<and>
         (0 \<le> duration n \<longrightarrow> ev_time onE \<le> ev_time offE) \<and>
         (duration n = 0 \<longrightarrow> ev_time offE = ev_time onE) \<and>
         onE \<in> set (events (generateSequence notes tempoArg)) \<and>
         offE \<in> set (events (generateSequence notes tempoArg)))"
proof -
  assume i: "i < length notes"
  let ?ns = "sort_key timestampOrZero notes"
  let ?es = "emittedEvents notes"
  let ?cur = "cursorAt ?ns i"
  let ?d = "duration (?ns ! i)"
  from i have "i < length ?ns" by simp
  from emitted_nth [OF this, of 0]
  have on: "?es ! (2 * i) = noteOnEvent ?cur (?ns ! i)"
    and off: "?es ! (2 * i + 1) = noteOffEvent (fadd ?cur ?d) (?ns ! i)"
    by (simp_all add: emittedEvents_eq durationToBeats_def cursorAt_def)
  have len: "length ?es = 2 * length notes"
    by (simp add: emittedEvents_eq length_emitted)
  with i have "?es ! (2 * i) \<in> set ?es" "?es ! (2 * i + 1) \<in> set ?es"
    by simp_all
  then have mem: "?es ! (2 * i) \<in> set (events (generateSequence notes tempoArg))"
    "?es ! (2 * i + 1) \<in> set (events (generateSequence notes tempoArg))"
    by (simp_all add: events_generateSequence)
  have t: "ev_time (?es ! (2 * i)) = ?cur" "ev_time (?es ! (2 * i + 1)) = fadd ?cur ?d"
    using on off by (simp_all add: noteOnEvent_def noteOffEvent_def)
  have dbl: "fl ?cur = ?cur"
    unfolding cursorAt_def by (rule cursorFrom_double) simp
  have le: "?cur \<le> fadd ?cur ?d" if "0 \<le> ?d"
  proof -
    from that have "?cur \<le> ?cur + ?d" by simp
    then have "fl ?cur \<le> fl (?cur + ?d)" by (rule fl_mono)
    then show ?thesis unfolding dbl fadd_def .
  qed
  have eq: "fadd ?cur ?d = ?cur" if "?d = 0"
    using that dbl by (simp add: fadd_def)
  have c3: "0 \<le> ?d \<longrightarrow> ev_time (?es ! (2 * i)) \<le> ev_time (?es ! (2 * i + 1))"
    unfolding t using le by blast
  have c4: "?d = 0 \<longrightarrow> ev_time (?es ! (2 * i + 1)) = ev_time (?es ! (2 * i))"
    unfolding t using eq by blast
  show ?thesis
    unfolding Let_def using on off c3 c4 mem by blast
qed

lemma sorted_late_early:
  "sort_key timestampOrZero [lateNote, restNote, earlyNote] = [earlyNote, lateNote, restNote]"
  by (simp add: timestampOrZero_def lateNote_def earlyNote_def restNote_def)

theorem generateSequence_on_off_pairs_witness:
  "emittedEvents [lateNote, restNote, earlyNote] ! 2 = noteOnEvent 2 lateNote \<and>
   emittedEvents [lateNote, restNote, earlyNote] ! 3 = noteOffEvent 3 lateNote \<and>
   ev_time (emittedEvents [lateNote, restNote, earlyNote] ! 2) \<le>
     ev_time (emittedEvents [lateNote, restNote, earlyNote] ! 3) \<and>
   emittedEvents [lateNote, restNote, earlyNote] ! 4 = noteOnEvent 3 restNote \<and>
   emittedEvents [lateNote, restNote, earlyNote] ! 5 = noteOffEvent 3 restNote \<and>
   ev_time (emittedEvents [lateNote, restNote, earlyNote] ! 5) =
     ev_time (emittedEvents [lateNote, restNote, earlyNote] ! 4)"
proof -
  have c: "cursorAt [earlyNote, lateNote, restNote] 1 = 2"
    "cursorAt [earlyNote, lateNote, restNote] 2 = 3"
    by (simp_all add: cursorAt_def cursorFrom_def durationToBeats_def fadd_def earlyNote_def
        lateNote_def fl_numeral)
  have d: "duration lateNote = 1" "fadd 2 1 = 3" "duration restNote = 0" "fadd 3 0 = 3"
    by (simp_all add: lateNote_def restNote_def fadd_def fl_numeral)
  have l: "(1::nat) < length [lateNote, restNote, earlyNote]"
    "(2::nat) < length [lateNote, restNote, earlyNote]" by simp_all
  from generateSequence_on_off_pairs [OF l(1), of None]
  have one: "emittedEvents [lateNote, restNote, earlyNote] ! 2 = noteOnEvent 2 lateNote \<and>
      emittedEvents [lateNote, restNote, earlyNote] ! 3 = noteOffEvent 3 lateNote \<and>
      ev_time (emittedEvents [lateNote, restNote, earlyNote] ! 2) \<le>
        ev_time (emittedEvents [lateNote, restNote, earlyNote] ! 3)"
    unfolding Let_def sorted_late_early c
    by (simp add: d noteOnEvent_def noteOffEvent_def)
  from generateSequence_on_off_pairs [OF l(2), of None]
  have two: "emittedEvents [lateNote, restNote, earlyNote] ! 4 = noteOnEvent 3 restNote \<and>
      emittedEvents [lateNote, restNote, earlyNote] ! 5 = noteOffEvent 3 restNote \<and>
      ev_time (emittedEvents [lateNote, restNote, earlyNote] ! 5) =
        ev_time (emittedEvents [lateNote, restNote, earlyNote] ! 4)"
    unfolding Let_def sorted_late_early c
    by (simp add: d noteOnEvent_def noteOffEvent_def)
  from one two show ?thesis by blast
qed

text \<open>
  C2, as stated, fails: \<^verbatim>\<open>durationToBeats\<close> returns the duration unchanged, and a
  note of duration 0 gives a \<^verbatim>\<open>noteOn\<close> and a \<^verbatim>\<open>noteOff\<close> at the same time 0.
\<close>

theorem generateSequence_zero_duration_counterexample:
  "events (generateSequence [altoNote 60 0] None) =
     [\<lparr> ev_type = noteOn, ev_pitch = 60, ev_velocity = 100, ev_time = 0, ev_channel = 1,
        ev_duration = Some 0 \<rparr>,
      \<lparr> ev_type = noteOff, ev_pitch = 60, ev_velocity = 0, ev_time = 0, ev_channel = 1,
        ev_duration = None \<rparr>] \<and>
   ev_time (events (generateSequence [altoNote 60 0] None) ! 1) =
     ev_time (events (generateSequence [altoNote 60 0] None) ! 0)"
  unfolding events_single
  by (simp add: noteOnEvent_def noteOffEvent_def altoNote_fields
      DEFAULT_VELOCITY_def NOTE_OFF_VELOCITY_def)

text \<open>
  A positive duration does not make the \<^verbatim>\<open>noteOff\<close> later either when the sum
  rounds to the cursor: after a note of \<open>10^16\<close> beats, a note of one beat has both
  its events at \<open>10^16\<close>.
\<close>

lemma generateSequence_absorbed_duration:
  "map ev_time
     (events (generateSequence [altoNote 60 10000000000000000, altoNote 62 1] None)) =
     [0, 10000000000000000, 10000000000000000, 10000000000000000]"
  by code_simp

text \<open>
  C9. \<^verbatim>\<open>muteVoice\<close> keeps the tempo, the duration and the sub-streams of the voices
  (with their velocities) and the number of events; of each event it keeps the type,
  the pitch, the time, the channel and the duration; the velocity becomes 0 on the
  channel of the voice, and an event on another channel is unchanged.
\<close>

theorem muteVoice_frame:
  "tempo (muteVoice sequence v) = tempo sequence \<and>
   seq_duration (muteVoice sequence v) = seq_duration sequence \<and>
   voices (muteVoice sequence v) = voices sequence \<and>
   length (events (muteVoice sequence v)) = length (events sequence) \<and>
   (\<forall>i < length (events sequence).
      let e = events sequence ! i; e' = events (muteVoice sequence v) ! i
      in ev_type e' = ev_type e \<and> ev_pitch e' = ev_pitch e \<and> ev_time e' = ev_time e \<and>
         ev_channel e' = ev_channel e \<and> ev_duration e' = ev_duration e \<and>
         (ev_channel e = getChannelForVoice v \<longrightarrow> ev_velocity e' = 0) \<and>
         (ev_channel e \<noteq> getChannelForVoice v \<longrightarrow> e' = e))"
  by (simp add: muteVoice_def Let_def)

theorem muteVoice_frame_witness:
  "ev_velocity (events (muteVoice twoVoices SOPRANO) ! 0) = 0 \<and>
   ev_pitch (events (muteVoice twoVoices SOPRANO) ! 0) = 72 \<and>
   events (muteVoice twoVoices SOPRANO) ! 1 = events twoVoices ! 1 \<and>
   ev_velocity (events (muteVoice twoVoices SOPRANO) ! 1) = 100 \<and>
   voices (muteVoice twoVoices SOPRANO) = voices twoVoices"
proof -
  have c: "ev_channel (events twoVoices ! 0) = getChannelForVoice SOPRANO"
    "ev_channel (events twoVoices ! 1) \<noteq> getChannelForVoice SOPRANO"
    "ev_pitch (events twoVoices ! 0) = 72" "ev_velocity (events twoVoices ! 1) = 100"
    "(0::nat) < length (events twoVoices)" "(1::nat) < length (events twoVoices)"
    by (simp_all add: twoVoices_def)
  from muteVoice_frame [of twoVoices SOPRANO] c show ?thesis
    by (metis)
qed

section \<open>Properties of the encoder\<close>

subsection \<open>The bitwise operators on 32-bit integers\<close>

lemma and_255: "(a::int) AND 255 = a mod 256"
proof -
  have "(255::int) = mask 8" by (simp add: mask_eq_exp_minus_1)
  then have "a AND 255 = take_bit 8 a" by (simp add: take_bit_eq_mask)
  then show ?thesis by (simp add: take_bit_eq_mod)
qed

lemma and_127: "(a::int) AND 127 = a mod 128"
proof -
  have "(127::int) = mask 7" by (simp add: mask_eq_exp_minus_1)
  then have "a AND 127 = take_bit 7 a" by (simp add: take_bit_eq_mask)
  then show ?thesis by (simp add: take_bit_eq_mod)
qed

lemma toInt32_id: "- (2 ^ 31) \<le> v \<Longrightarrow> v < 2 ^ 31 \<Longrightarrow> toInt32 v = v"
  by (simp add: toInt32_def)

lemma toInt32_range: "- (2 ^ 31) \<le> toInt32 v \<and> toInt32 v < 2 ^ 31"
proof -
  have "0 \<le> (v + 2147483648) mod 4294967296" "(v + 2147483648) mod 4294967296 < 4294967296"
    by simp_all
  then show ?thesis unfolding toInt32_def by simp
qed

lemma toInt32_cases:
  "0 \<le> n \<Longrightarrow> n < 2 ^ 32 \<Longrightarrow> toInt32 n = n \<or> toInt32 n = n - 2 ^ 32"
proof -
  assume n: "0 \<le> n" "n < 2 ^ 32"
  show ?thesis
  proof (cases "n < 2 ^ 31")
    case True
    with n show ?thesis by (simp add: toInt32_id)
  next
    case False
    with n have "(n + 2 ^ 31) mod 2 ^ 32 = n + 2 ^ 31 - 2 ^ 32"
      by (simp add: mod_pos_geq)
    then show ?thesis by (simp add: toInt32_def)
  qed
qed

lemma toInt32_mod_256: "toInt32 a mod 256 = a mod 256"
proof -
  have d: "(256::int) dvd 2 ^ 32" by simp
  have "toInt32 a mod 256 = ((a + 2 ^ 31) mod 2 ^ 32 mod 256 - 2 ^ 31 mod 256) mod 256"
    unfolding toInt32_def by (simp only: mod_diff_eq)
  also have "\<dots> = ((a + 2 ^ 31) mod 256 - 2 ^ 31 mod 256) mod 256"
    using d by (simp only: mod_mod_cancel)
  also have "\<dots> = (a + 2 ^ 31 - 2 ^ 31) mod 256"
    by (simp only: mod_diff_eq)
  finally show ?thesis by simp
qed

lemma toInt32_mod_128: "toInt32 a mod 128 = a mod 128"
proof -
  have d: "(128::int) dvd 2 ^ 32" by simp
  have "toInt32 a mod 128 = ((a + 2 ^ 31) mod 2 ^ 32 mod 128 - 2 ^ 31 mod 128) mod 128"
    unfolding toInt32_def by (simp only: mod_diff_eq)
  also have "\<dots> = ((a + 2 ^ 31) mod 128 - 2 ^ 31 mod 128) mod 128"
    using d by (simp only: mod_mod_cancel)
  also have "\<dots> = (a + 2 ^ 31 - 2 ^ 31) mod 128"
    by (simp only: mod_diff_eq)
  finally show ?thesis by simp
qed

lemma js_and_ff: "js_and a 0xff = a mod 256"
  by (simp add: js_and_def toInt32_id and_255 toInt32_mod_256)

lemma js_and_7f: "js_and a 0x7f = a mod 128"
  by (simp add: js_and_def toInt32_id and_127 toInt32_mod_128)

subsection \<open>The four bytes of the track length\<close>

lemma div_sub_mult_mod_256:
  "(c::int) \<noteq> 0 \<Longrightarrow> ((n - c * (256 * m)) div c) mod 256 = (n div c) mod 256"
proof -
  assume c: "c \<noteq> 0"
  have "(n - c * (256 * m)) div c = (n + c * (- (256 * m))) div c" by simp
  also have "\<dots> = - (256 * m) + n div c" using c by (rule div_mult_self2)
  finally have "(n - c * (256 * m)) div c mod 256 = (n div c + 256 * (- m)) mod 256"
    by (simp add: add.commute)
  also have "\<dots> = n div c mod 256" by (rule mod_mult_self2)
  finally show ?thesis .
qed

lemma shr_byte:
  assumes "0 \<le> n" "n < 2 ^ 32"
  shows "js_shr n 24 mod 256 = (n div 2 ^ 24) mod 256"
    and "js_shr n 16 mod 256 = (n div 2 ^ 16) mod 256"
    and "js_shr n 8 mod 256 = (n div 2 ^ 8) mod 256"
proof -
  from toInt32_cases [OF assms] have "toInt32 n = n \<or> toInt32 n = n - 2 ^ 32" .
  then show "js_shr n 24 mod 256 = (n div 2 ^ 24) mod 256"
    using div_sub_mult_mod_256 [of "2 ^ 24" n 1] by (auto simp add: js_shr_def)
  from toInt32_cases [OF assms] have "toInt32 n = n \<or> toInt32 n = n - 2 ^ 32" .
  then show "js_shr n 16 mod 256 = (n div 2 ^ 16) mod 256"
    using div_sub_mult_mod_256 [of "2 ^ 16" n "2 ^ 8"] by (auto simp add: js_shr_def)
  from toInt32_cases [OF assms] have "toInt32 n = n \<or> toInt32 n = n - 2 ^ 32" .
  then show "js_shr n 8 mod 256 = (n div 2 ^ 8) mod 256"
    using div_sub_mult_mod_256 [of "2 ^ 8" n "2 ^ 16"] by (auto simp add: js_shr_def)
qed

lemma readBE_4: "readBE [a, b, c, d] = a * 2 ^ 24 + b * 2 ^ 16 + c * 2 ^ 8 + d"
  by (simp add: readBE_def)

lemma be32_decompose:
  fixes n :: int
  assumes "0 \<le> n" "n < 2 ^ 32"
  shows "(n div 2 ^ 24) mod 256 * 2 ^ 24 + (n div 2 ^ 16) mod 256 * 2 ^ 16 +
         (n div 2 ^ 8) mod 256 * 2 ^ 8 + n mod 256 = n"
proof -
  have a: "n div 2 ^ 24 mod 256 = n div 2 ^ 24"
    using assms by (simp add: div_pos_pos_trivial pos_imp_zdiv_nonneg_iff)
  have b: "n div 2 ^ 24 * 256 + n div 2 ^ 16 mod 256 = n div 2 ^ 16"
  proof -
    have "n div 2 ^ 24 = n div 2 ^ 16 div 256" by (simp add: zdiv_zmult2_eq [symmetric])
    then show ?thesis by (simp add: algebra_simps)
  qed
  have c: "n div 2 ^ 16 * 256 + n div 2 ^ 8 mod 256 = n div 2 ^ 8"
  proof -
    have "n div 2 ^ 16 = n div 2 ^ 8 div 256" by (simp add: zdiv_zmult2_eq [symmetric])
    then show ?thesis by (simp add: algebra_simps)
  qed
  have d: "n div 2 ^ 8 * 256 + n mod 256 = n" by simp
  have "(n div 2 ^ 24) mod 256 * 2 ^ 24 + (n div 2 ^ 16) mod 256 * 2 ^ 16 +
         (n div 2 ^ 8) mod 256 * 2 ^ 8 + n mod 256 =
        ((n div 2 ^ 24 * 256 + n div 2 ^ 16 mod 256) * 256 + n div 2 ^ 8 mod 256) * 256 + n mod 256"
    unfolding a by (simp add: algebra_simps)
  also have "\<dots> = n" unfolding b c d ..
  finally show ?thesis .
qed

lemma readBE_trackLengthBytes:
  assumes "0 \<le> n" "n < 2 ^ 32"
  shows "readBE (map toUint8 (trackLengthBytes n)) = n"
proof -
  have b3: "toUint8 (js_and (js_shr n 24) 0xff) = (n div 2 ^ 24) mod 256"
    unfolding toUint8_def js_and_ff shr_byte(1) [OF assms] by (rule mod_mod_trivial)
  have b2: "toUint8 (js_and (js_shr n 16) 0xff) = (n div 2 ^ 16) mod 256"
    unfolding toUint8_def js_and_ff shr_byte(2) [OF assms] by (rule mod_mod_trivial)
  have b1: "toUint8 (js_and (js_shr n 8) 0xff) = (n div 2 ^ 8) mod 256"
    unfolding toUint8_def js_and_ff shr_byte(3) [OF assms] by (rule mod_mod_trivial)
  have b0: "toUint8 (js_and n 0xff) = n mod 256"
    unfolding toUint8_def js_and_ff by (rule mod_mod_trivial)
  have "map toUint8 (trackLengthBytes n) =
     [(n div 2 ^ 24) mod 256, (n div 2 ^ 16) mod 256, (n div 2 ^ 8) mod 256, n mod 256]"
    unfolding trackLengthBytes_def list.map b3 b2 b1 b0 ..
  then show ?thesis
    using be32_decompose [OF assms] by (simp only: readBE_4)
qed

subsection \<open>When the encoder returns\<close>

text \<open>
  The encoder returns exactly when the track data has at most \<open>maxArgs\<close> elements, and
  throws \<^verbatim>\<open>RangeError\<close> otherwise; what it returns is the header, the length and
  \<open>trackBytes\<close>, each element modulo 256.
\<close>

lemma eventLoop_Inr:
  "eventLoop maxArgs evs t acc = Inr td \<Longrightarrow> td = acc @ eventStream evs t"
proof (induction evs arbitrary: t acc)
  case Nil
  then show ?case by simp
next
  case (Cons e es)
  from Cons.prems
  have "eventLoop maxArgs es (ev_time e)
          ((acc @ variableLengthQuantity (deltaTime t e)) @ noteBytes e) = Inr td"
    by (simp add: pushSpread_def split: if_splits)
  from Cons.IH [OF this] show ?case by (simp add: eventBytes_def)
qed

lemma eventLoop_fits:
  "length (eventStream evs t) \<le> maxArgs \<Longrightarrow>
     eventLoop maxArgs evs t acc = Inr (acc @ eventStream evs t)"
  by (induction evs arbitrary: t acc) (auto simp add: pushSpread_def eventBytes_def)

lemma length_numberToBytesLoop:
  "length (numberToBytesLoop num n bytes) = n + length bytes"
  by (induction n arbitrary: bytes) simp_all

lemma length_numberToBytes: "length (numberToBytes num n) = n"
  by (simp add: numberToBytes_def length_numberToBytesLoop)

lemma length_trackBytes:
  "length (trackBytes sequence) = 9 + length (eventStream (events sequence) 0)"
  by (simp add: trackBytes_def metaEvent_def length_numberToBytes)

lemma trackDataOf_Inr:
  "trackDataOf maxArgs sequence = Inr td \<Longrightarrow> td = trackBytes sequence"
  by (auto simp add: trackDataOf_def trackBytes_def Let_def pushSpread_def metaEvent_def
        length_numberToBytes split: if_splits sum.splits dest!: eventLoop_Inr)

lemma trackDataOf_fits:
  "length (trackBytes sequence) \<le> maxArgs \<Longrightarrow>
     trackDataOf maxArgs sequence = Inr (trackBytes sequence)"
proof -
  assume fits: "length (trackBytes sequence) \<le> maxArgs"
  then have "length (eventStream (events sequence) 0) \<le> maxArgs" "9 \<le> maxArgs"
    by (simp_all add: length_trackBytes)
  then show ?thesis
    by (simp add: trackDataOf_def trackBytes_def Let_def pushSpread_def metaEvent_def
        length_numberToBytes eventLoop_fits)
qed

lemma sequenceToMidiBytes_Inr:
  assumes "sequenceToMidiBytes maxArgs sequence = Inr bytes"
  shows "bytes = [77, 84, 104, 100, 0, 0, 0, 6, 0, 0, 0, 1, 1, 224, 77, 84, 114, 107] @
           map toUint8 (trackLengthBytes (int (length (trackBytes sequence)))) @
           map toUint8 (trackBytes sequence)"
    and "length (trackBytes sequence) \<le> maxArgs"
proof -
  from assms obtain td where td: "trackDataOf maxArgs sequence = Inr td"
    by (auto simp add: sequenceToMidiBytes_def Let_def split: sum.splits)
  then have tb: "td = trackBytes sequence" by (rule trackDataOf_Inr)
  from assms td show "length (trackBytes sequence) \<le> maxArgs"
    unfolding tb
    by (auto simp add: sequenceToMidiBytes_def Let_def pushSpread_def split: sum.splits if_splits)
  from assms td
  show "bytes = [77, 84, 104, 100, 0, 0, 0, 6, 0, 0, 0, 1, 1, 224, 77, 84, 114, 107] @
           map toUint8 (trackLengthBytes (int (length (trackBytes sequence)))) @
           map toUint8 (trackBytes sequence)"
    unfolding tb
    by (auto simp add: sequenceToMidiBytes_def Let_def pushSpread_def stringToBytes_def
          TICKS_PER_BEAT_def js_shr_def js_and_def toInt32_def toUint8_def
          split: sum.splits if_splits)
qed

lemma sequenceToMidiBytes_fits:
  assumes "length (trackBytes sequence) \<le> maxArgs"
  shows "sequenceToMidiBytes maxArgs sequence =
           Inr ([77, 84, 104, 100, 0, 0, 0, 6, 0, 0, 0, 1, 1, 224, 77, 84, 114, 107] @
                map toUint8 (trackLengthBytes (int (length (trackBytes sequence)))) @
                map toUint8 (trackBytes sequence))"
proof -
  have "4 \<le> maxArgs" using assms by (simp add: length_trackBytes)
  then show ?thesis
    using assms
    by (simp add: sequenceToMidiBytes_def Let_def pushSpread_def stringToBytes_def
          trackDataOf_fits TICKS_PER_BEAT_def js_shr_def js_and_def toInt32_def toUint8_def)
qed

lemma sequenceToMidiBytes_throws:
  assumes "maxArgs < length (trackBytes sequence)"
  shows "sequenceToMidiBytes maxArgs sequence = Inl RangeError"
proof (cases "sequenceToMidiBytes maxArgs sequence")
  case (Inl e)
  then show ?thesis by (cases e) simp
next
  case (Inr bytes)
  from sequenceToMidiBytes_Inr(2) [OF this] assms show ?thesis by simp
qed

subsection \<open>The layout of the output\<close>

lemma length_trackLengthBytes: "length (map toUint8 (trackLengthBytes n)) = 4"
  by (simp add: trackLengthBytes_def)

lemma toUint8_range: "0 \<le> toUint8 x \<and> toUint8 x < 256"
  by (simp add: toUint8_def)

text \<open>
  C5. An array that the encoder returns starts with \<^verbatim>\<open>MThd\<close>, the length 6, the
  format 0, the track count 1 and the ticks per beat on two bytes, big-endian; then
  \<^verbatim>\<open>MTrk\<close> and a four-byte big-endian length that is the number of bytes of the
  track body after it; the body is the tempo meta-event, the events and the
  end-of-track meta-event \<open>FF 2F 00\<close>. A JavaScript array has fewer than \<open>2^32\<close>
  elements, which is the hypothesis on the track data.
\<close>

theorem sequenceToMidiBytes_layout:
  "sequenceToMidiBytes maxArgs sequence = Inr bytes \<Longrightarrow>
   length (trackBytes sequence) < 2 ^ 32 \<Longrightarrow>
     (let body = drop 22 bytes
      in take 4 bytes = [0x4D, 0x54, 0x68, 0x64] \<and>
         readBE (take 4 (drop 4 bytes)) = 6 \<and>
         readBE (take 2 (drop 8 bytes)) = 0 \<and>
         readBE (take 2 (drop 10 bytes)) = 1 \<and>
         readBE (take 2 (drop 12 bytes)) = TICKS_PER_BEAT \<and>
         take 4 (drop 14 bytes) = [0x4D, 0x54, 0x72, 0x6B] \<and>
         readBE (take 4 (drop 18 bytes)) = int (length body) \<and>
         body = map toUint8
                  (metaEvent 0x51 (numberToBytes (tempoNumber (tempo sequence)) 3) @
                   eventStream (events sequence) 0 @ [0xff, 0x2f, 0x00]) \<and>
         (\<forall>b \<in> set bytes. 0 \<le> b \<and> b < 256))"
proof -
  assume ret: "sequenceToMidiBytes maxArgs sequence = Inr bytes"
    and len: "length (trackBytes sequence) < 2 ^ 32"
  let ?n = "int (length (trackBytes sequence))"
  let ?L = "map toUint8 (trackLengthBytes ?n)"
  let ?B = "map toUint8 (trackBytes sequence)"
  have n: "0 \<le> ?n" "?n < 2 ^ 32" using len by simp_all
  have L4: "length ?L = 4" by (rule length_trackLengthBytes)
  have eq: "bytes = [77, 84, 104, 100, 0, 0, 0, 6, 0, 0, 0, 1, 1, 224, 77, 84, 114, 107] @ ?L @ ?B"
    using ret by (rule sequenceToMidiBytes_Inr(1))
  have h1: "take 4 bytes = [0x4D, 0x54, 0x68, 0x64]" unfolding eq by simp
  have h2: "readBE (take 4 (drop 4 bytes)) = 6" unfolding eq by (simp add: readBE_def)
  have h3: "readBE (take 2 (drop 8 bytes)) = 0" unfolding eq by (simp add: readBE_def)
  have h4: "readBE (take 2 (drop 10 bytes)) = 1" unfolding eq by (simp add: readBE_def)
  have h5: "readBE (take 2 (drop 12 bytes)) = TICKS_PER_BEAT"
    unfolding eq by (simp add: readBE_def TICKS_PER_BEAT_def)
  have h6: "take 4 (drop 14 bytes) = [0x4D, 0x54, 0x72, 0x6B]" unfolding eq by simp
  have d18: "drop 18 bytes = ?L @ ?B" unfolding eq by simp
  have d22: "drop 22 bytes = ?B"
  proof -
    have "drop 22 bytes = drop 4 (drop 18 bytes)" by simp
    also have "\<dots> = ?B" unfolding d18 using L4 by simp
    finally show ?thesis .
  qed
  have "take 4 (drop 18 bytes) = ?L" unfolding d18 using L4 by simp
  then have h7: "readBE (take 4 (drop 18 bytes)) = int (length (drop 22 bytes))"
    unfolding d22 using readBE_trackLengthBytes [OF n] by simp
  have h8: "drop 22 bytes = map toUint8
                  (metaEvent 0x51 (numberToBytes (tempoNumber (tempo sequence)) 3) @
                   eventStream (events sequence) 0 @ [0xff, 0x2f, 0x00])"
    unfolding d22 by (simp add: trackBytes_def metaEvent_def)
  have h9: "\<forall>b \<in> set bytes. 0 \<le> b \<and> b < 256"
    unfolding eq using toUint8_range by auto
  show ?thesis
    unfolding Let_def using h1 h2 h3 h4 h5 h6 h7 h8 h9 by blast
qed

subsection \<open>The output for one note\<close>

lemma floor_rat_numeral:
  "\<lfloor>numeral a / numeral b :: rat\<rfloor> = numeral a div numeral b"
  "\<lfloor>- numeral a / numeral b :: rat\<rfloor> = - numeral a div numeral b"
  "\<lfloor>- (numeral a / numeral b) :: rat\<rfloor> = - numeral a div numeral b"
  "\<lfloor>1 / numeral b :: rat\<rfloor> = 1 div numeral b"
  using floor_divide_of_int_eq [of "numeral a" "numeral b", where ?'a = rat]
    floor_divide_of_int_eq [of "- numeral a" "numeral b", where ?'a = rat]
    floor_divide_of_int_eq [of 1 "numeral b", where ?'a = rat]
  by simp_all

lemmas js_eval = js_shr_def js_and_def js_or_def toInt32_def js_round_def toUint8_def
  floor_rat_numeral

lemma fl_neg_numeral: "numeral n \<le> (2::int) ^ 53 \<Longrightarrow> fl (- numeral n) = - numeral n"
  by (simp add: fl_minus fl_numeral)

lemma tempoNumber_120: "tempoNumber 120 = 500000"
  by (simp add: tempoNumber_def fdiv_def fl_numeral js_round_def floor_rat_numeral)

lemma tempoBytes_120: "numberToBytes 500000 3 = [32, 161, 7]"
  by (simp add: numberToBytes_def numeral_3_eq_3 js_eval)

lemma trackBytes_oneNote:
  "trackBytes oneNote = [255, 81, 3, 32, 161, 7, 0, 145, 60, 100, 4, 129, 60, 0, 255, 47, 0]"
  by (simp add: trackBytes_def oneNote_def tempoNumber_120 tempoBytes_120 eventBytes_def
      noteBytes_def deltaTime_def fsub_def variableLengthQuantity_def metaEvent_def js_eval)

lemma sequenceToMidiBytes_oneNote:
  "sequenceToMidiBytes 65536 oneNote =
     Inr [77, 84, 104, 100, 0, 0, 0, 6, 0, 0, 0, 1, 1, 224, 77, 84, 114, 107, 0, 0, 0, 17,
          255, 81, 3, 32, 161, 7, 0, 145, 60, 100, 4, 129, 60, 0, 255, 47, 0]"
proof -
  have "length (trackBytes oneNote) \<le> 65536" by (simp add: trackBytes_oneNote)
  from sequenceToMidiBytes_fits [OF this] show ?thesis
    by (simp add: trackBytes_oneNote trackLengthBytes_def js_eval)
qed

theorem sequenceToMidiBytes_layout_witness:
  "sequenceToMidiBytes 65536 oneNote =
     Inr [77, 84, 104, 100, 0, 0, 0, 6, 0, 0, 0, 1, 1, 224, 77, 84, 114, 107, 0, 0, 0, 17,
          255, 81, 3, 32, 161, 7, 0, 145, 60, 100, 4, 129, 60, 0, 255, 47, 0] \<and>
   readBE [1, 224] = TICKS_PER_BEAT \<and>
   readBE [0, 0, 0, 17] =
     int (length [255, 81, 3, 32, 161, 7, 0, 145, 60, 100, 4, 129, 60, 0, 255, 47, 0 :: int])"
proof -
  have "length (trackBytes oneNote) < 2 ^ 32"
    by (simp add: trackBytes_oneNote)
  from sequenceToMidiBytes_layout [OF sequenceToMidiBytes_oneNote this]
  have "readBE [1, 224] = TICKS_PER_BEAT"
    "readBE [0, 0, 0, 17] =
       int (length [255, 81, 3, 32, 161, 7, 0, 145, 60, 100, 4, 129, 60, 0, 255, 47, 0 :: int])"
    unfolding Let_def by simp_all
  with sequenceToMidiBytes_oneNote show ?thesis by simp
qed

text \<open>
  C1 at the sequence of one note of one beat: the delta of the \<^verbatim>\<open>noteOff\<close>, one
  beat after the \<^verbatim>\<open>noteOn\<close>, is 4 and is written as the byte \<open>04\<close>, where the
  header declares 480 ticks per beat, whose variable-length quantity is \<open>83 60\<close>.
\<close>

theorem sequenceToMidiBytes_one_beat_delta:
  "deltaTime 0 (events oneNote ! 1) = 4 \<and>
   eventBytes 0 (events oneNote ! 1) = [4, 0x81, 60, 0] \<and>
   variableLengthQuantity (1 * TICKS_PER_BEAT) = [0x83, 0x60] \<and>
   map_sum id (drop 32) (sequenceToMidiBytes 65536 oneNote) =
     Inr [4, 0x81, 60, 0, 0xff, 0x2f, 0]"
  by (simp add: sequenceToMidiBytes_oneNote)
     (simp add: oneNote_def eventBytes_def noteBytes_def deltaTime_def fsub_def
       variableLengthQuantity_def TICKS_PER_BEAT_def js_eval)

subsection \<open>No validation\<close>

lemma vlqLoop_nonpos: "v \<le> 0 \<Longrightarrow> vlqLoop v bytes = bytes"
  by (subst vlqLoop.simps) simp

lemma variableLengthQuantity_negative:
  "toInt32 d < 0 \<Longrightarrow> variableLengthQuantity d = [d mod 128]"
proof -
  assume neg: "toInt32 d < 0"
  then have "js_shr d 7 \<le> 0"
    by (simp add: js_shr_def div_int_pos_iff)
  then show ?thesis
    by (simp add: variableLengthQuantity_def vlqLoop_nonpos js_and_7f)
qed

lemma map_toUint8_eventBytes:
  "map toUint8 (eventBytes t e) =
     map toUint8 (variableLengthQuantity (deltaTime t e)) @
     [((case ev_type e of noteOn \<Rightarrow> 0x90 | noteOff \<Rightarrow> 0x80) + ev_channel e) mod 256,
      ev_pitch e mod 256, ev_velocity e mod 256]"
  by (cases "ev_type e") (simp_all add: eventBytes_def noteBytes_def toUint8_def)

lemma map_toUint8_eventStream:
  "map toUint8 (eventStream evs t) = encodedEvents evs t"
  by (induction evs arbitrary: t) (simp_all add: map_toUint8_eventBytes)

text \<open>
  C4, amended. The encoder validates nothing. For every sequence whose track data fits
  in one call of \<^verbatim>\<open>push\<close>, whatever its pitches, velocities and deltas are, the
  encoder returns an array; in it each event gives the bytes of its delta and its
  status, pitch and velocity modulo 256; a delta that is negative as a 32-bit integer
  is written as the single byte \<open>d mod 128\<close>.
\<close>

theorem sequenceToMidiBytes_wraps_silently:
  "length (trackBytes sequence) \<le> maxArgs \<Longrightarrow>
     (\<exists>bytes. sequenceToMidiBytes maxArgs sequence = Inr bytes \<and>
        drop 22 bytes =
          map toUint8 (metaEvent 0x51 (numberToBytes (tempoNumber (tempo sequence)) 3)) @
          encodedEvents (events sequence) 0 @ [0xff, 0x2f, 0]) \<and>
     (toInt32 d < 0 \<longrightarrow> variableLengthQuantity d = [d mod 128])"
proof -
  assume fits: "length (trackBytes sequence) \<le> maxArgs"
  let ?L = "map toUint8 (trackLengthBytes (int (length (trackBytes sequence))))"
  let ?B = "map toUint8 (trackBytes sequence)"
  let ?bytes = "[77, 84, 104, 100, 0, 0, 0, 6, 0, 0, 0, 1, 1, 224, 77, 84, 114, 107] @ ?L @ ?B"
  have ret: "sequenceToMidiBytes maxArgs sequence = Inr ?bytes"
    using fits by (rule sequenceToMidiBytes_fits)
  have L4: "length ?L = 4" by (rule length_trackLengthBytes)
  have "drop 22 ?bytes = drop 4 (?L @ ?B)" by simp
  also have "\<dots> = ?B" using L4 by simp
  also have "\<dots> = map toUint8 (metaEvent 0x51 (numberToBytes (tempoNumber (tempo sequence)) 3)) @
      encodedEvents (events sequence) 0 @ [0xff, 0x2f, 0]"
    unfolding trackBytes_def map_append map_toUint8_eventStream
    by (simp add: toUint8_def metaEvent_def)
  finally have a: "drop 22 ?bytes =
      map toUint8 (metaEvent 0x51 (numberToBytes (tempoNumber (tempo sequence)) 3)) @
      encodedEvents (events sequence) 0 @ [0xff, 0x2f, 0]" .
  show ?thesis using ret a variableLengthQuantity_negative by blast
qed

lemma trackBytes_outOfRange:
  "trackBytes outOfRange =
     [255, 81, 3, 32, 161, 7, 8, 144, 300, 200, 120, 128, 300, 0, 255, 47, 0]"
  by (simp add: trackBytes_def outOfRange_def tempoNumber_120 tempoBytes_120 eventBytes_def
      noteBytes_def deltaTime_def fsub_def fl_numeral fl_neg_numeral
      variableLengthQuantity_def metaEvent_def js_eval)

lemma sequenceToMidiBytes_outOfRange:
  "sequenceToMidiBytes 65536 outOfRange =
     Inr [77, 84, 104, 100, 0, 0, 0, 6, 0, 0, 0, 1, 1, 224, 77, 84, 114, 107, 0, 0, 0, 17,
          255, 81, 3, 32, 161, 7, 8, 144, 44, 200, 120, 128, 44, 0, 255, 47, 0]"
proof -
  have "length (trackBytes outOfRange) \<le> 65536" by (simp add: trackBytes_outOfRange)
  from sequenceToMidiBytes_fits [OF this] show ?thesis
    by (simp add: trackBytes_outOfRange trackLengthBytes_def js_eval)
qed

text \<open>
  C4, as stated, fails: for a sequence with the pitch 300, the velocity 200 and a
  negative delta the encoder returns bytes, with the pitch stored as 44 and the delta
  \<open>-8\<close> as 120.
\<close>

theorem sequenceToMidiBytes_no_error_counterexample:
  "\<not> encoderContract outOfRange \<and>
   deltaTime 2 (events outOfRange ! 1) = - 8 \<and>
   sequenceToMidiBytes 65536 outOfRange =
     Inr [77, 84, 104, 100, 0, 0, 0, 6, 0, 0, 0, 1, 1, 224, 77, 84, 114, 107, 0, 0, 0, 17,
          255, 81, 3, 32, 161, 7, 8, 144, 44, 200, 120, 128, 44, 0, 255, 47, 0]"
  by (simp add: sequenceToMidiBytes_outOfRange)
     (simp add: encoderContract_def outOfRange_def deltaTime_def fsub_def fl_neg_numeral
       js_round_def floor_rat_numeral)

theorem sequenceToMidiBytes_wraps_silently_witness:
  "toInt32 (deltaTime 2 (events outOfRange ! 1)) < 0 \<and>
   variableLengthQuantity (deltaTime 2 (events outOfRange ! 1)) = [120] \<and>
   sequenceToMidiBytes 65536 outOfRange =
     Inr [77, 84, 104, 100, 0, 0, 0, 6, 0, 0, 0, 1, 1, 224, 77, 84, 114, 107, 0, 0, 0, 17,
          255, 81, 3, 32, 161, 7, 8, 144, 44, 200, 120, 128, 44, 0, 255, 47, 0]"
proof -
  have d: "deltaTime 2 (events outOfRange ! 1) = - 8"
    by (simp add: outOfRange_def deltaTime_def fsub_def fl_neg_numeral js_round_def
        floor_rat_numeral)
  have neg: "toInt32 (- 8) < 0" by (simp add: toInt32_def)
  have fits: "length (trackBytes outOfRange) \<le> 65536" by (simp add: trackBytes_outOfRange)
  from sequenceToMidiBytes_wraps_silently [OF fits, of "- 8"] neg
  have "variableLengthQuantity (- 8) = [- 8 mod 128]" by blast
  then show ?thesis unfolding d using neg by (simp add: sequenceToMidiBytes_outOfRange)
qed

subsection \<open>Variable-length quantities\<close>

lemma div_128_less: "0 < (v::int) \<Longrightarrow> 0 \<le> v div 128 \<and> v div 128 < v"
  by (simp add: pos_imp_zdiv_nonneg_iff int_div_less_self)

lemma foldl_vlq:
  "foldl (\<lambda>acc b. acc * 128 + b mod 128) (a::int) bs =
     a * 128 ^ length bs + foldl (\<lambda>acc b. acc * 128 + b mod 128) 0 bs"
proof (induction bs arbitrary: a)
  case Nil
  then show ?case by simp
next
  case (Cons b bs)
  have "foldl (\<lambda>acc b. acc * 128 + b mod 128) a (b # bs) =
        (a * 128 + b mod 128) * 128 ^ length bs + foldl (\<lambda>acc b. acc * 128 + b mod 128) 0 bs"
    using Cons.IH [of "a * 128 + b mod 128"] by simp
  moreover have "foldl (\<lambda>acc b. acc * 128 + b mod 128) 0 (b # bs) =
        (b mod 128) * 128 ^ length bs + foldl (\<lambda>acc b. acc * 128 + b mod 128) 0 bs"
    using Cons.IH [of "b mod 128"] by simp
  ultimately show ?case by (simp add: algebra_simps)
qed

lemma vlqValue_Cons: "vlqValue (b # bs) = (b mod 128) * 128 ^ length bs + vlqValue bs"
  unfolding vlqValue_def using foldl_vlq [of "b mod 128" bs] by simp

lemma or_128: "0 \<le> a \<Longrightarrow> a < 128 \<Longrightarrow> (a::int) OR 128 = a + 128"
proof -
  assume a: "0 \<le> a" "a < 128"
  then have t: "take_bit 7 a = a" by (simp add: take_bit_int_eq_self)
  have "concat_bit 7 a 1 = take_bit 7 a + push_bit 7 1" by (rule concat_bit_eq)
  moreover have "concat_bit 7 a 1 = take_bit 7 a OR push_bit 7 1" by (simp add: concat_bit_def)
  ultimately show ?thesis using t by simp
qed

lemma js_or_80: "0 \<le> a \<Longrightarrow> a < 128 \<Longrightarrow> js_or a 0x80 = a + 128"
  by (simp add: js_or_def toInt32_id or_128)

lemma js_shr_7: "0 \<le> v \<Longrightarrow> v < 2 ^ 31 \<Longrightarrow> js_shr v 7 = v div 128"
  by (simp add: js_shr_def toInt32_id)

lemma vlqLoop_step:
  "0 < v \<Longrightarrow> v < 2 ^ 31 \<Longrightarrow>
     vlqLoop v bytes = vlqLoop (v div 128) ((v mod 128 + 128) # bytes)"
  by (subst vlqLoop.simps) (simp add: js_shr_7 js_and_7f js_or_80)

lemma vlqValue_vlqLoop:
  "0 \<le> v \<Longrightarrow> v < 2 ^ 31 \<Longrightarrow>
     vlqValue (vlqLoop v bytes) = v * 128 ^ length bytes + vlqValue bytes"
proof (induction "nat v" arbitrary: v bytes rule: less_induct)
  case less
  show ?case
  proof (cases "v = 0")
    case True
    then show ?thesis by (simp add: vlqLoop_nonpos)
  next
    case False
    with less.prems have pos: "0 < v" by simp
    have d: "0 \<le> v div 128" "v div 128 < 2 ^ 31" "nat (v div 128) < nat v"
      using div_128_less [OF pos] less.prems(2) by simp_all
    have "vlqValue (vlqLoop v bytes) =
          vlqValue (vlqLoop (v div 128) ((v mod 128 + 128) # bytes))"
      using pos less.prems(2) by (simp only: vlqLoop_step)
    also have "\<dots> = (v div 128) * 128 ^ length ((v mod 128 + 128) # bytes) +
                     vlqValue ((v mod 128 + 128) # bytes)"
      using less.hyps [OF d(3) d(1) d(2)] .
    also have "\<dots> = v div 128 * 128 ^ Suc (length bytes) +
                     (v mod 128 * 128 ^ length bytes + vlqValue bytes)"
      by (simp add: vlqValue_Cons)
    finally have "vlqValue (vlqLoop v bytes) =
        (v div 128 * 128 ^ Suc (length bytes) + v mod 128 * 128 ^ length bytes) +
        vlqValue bytes" by (simp only: add.assoc)
    moreover have "v * 128 ^ length bytes =
        v div 128 * 128 ^ Suc (length bytes) + v mod 128 * 128 ^ length bytes"
    proof -
      have "v * 128 ^ length bytes = (v div 128 * 128 + v mod 128) * 128 ^ length bytes"
        by simp
      also have "\<dots> = v div 128 * 128 ^ Suc (length bytes) + v mod 128 * 128 ^ length bytes"
        by (simp only: distrib_right power_Suc mult.assoc)
      finally show ?thesis .
    qed
    ultimately show ?thesis by (simp only:)
  qed
qed

lemma vlqWellFormed_vlqLoop:
  "0 \<le> v \<Longrightarrow> v < 2 ^ 31 \<Longrightarrow> vlqWellFormed bytes \<Longrightarrow> vlqWellFormed (vlqLoop v bytes)"
proof (induction "nat v" arbitrary: v bytes rule: less_induct)
  case less
  show ?case
  proof (cases "v = 0")
    case True
    with less.prems show ?thesis by (simp add: vlqLoop_nonpos)
  next
    case False
    with less.prems have pos: "0 < v" by simp
    have d: "0 \<le> v div 128" "v div 128 < 2 ^ 31" "nat (v div 128) < nat v"
      using div_128_less [OF pos] less.prems(2) by simp_all
    from less.prems(3) obtain b bs where bytes: "bytes = b # bs" by (cases bytes) simp_all
    have "vlqWellFormed ((v mod 128 + 128) # bytes)"
      using less.prems(3) unfolding bytes by simp
    from less.hyps [OF d(3) d(1) d(2) this] show ?thesis
      using pos less.prems(2) by (simp only: vlqLoop_step)
  qed
qed

text \<open>
  The variable-length quantity of a value from 0 to \<open>2^31 - 1\<close> is well formed and
  reads back as the value.
\<close>

lemma variableLengthQuantity_roundtrip:
  "0 \<le> v \<Longrightarrow> v < 2 ^ 31 \<Longrightarrow>
     vlqValue (variableLengthQuantity v) = v \<and> vlqWellFormed (variableLengthQuantity v)"
proof -
  assume v: "0 \<le> v" "v < 2 ^ 31"
  have d: "0 \<le> v div 128" "v div 128 < 2 ^ 31"
    using v div_128_less [of v] by (cases "v = 0"; simp)+
  have eq: "variableLengthQuantity v = vlqLoop (v div 128) [v mod 128]"
    using v by (simp add: variableLengthQuantity_def js_shr_7 js_and_7f)
  have "vlqValue (vlqLoop (v div 128) [v mod 128]) = v div 128 * 128 + v mod 128"
    using vlqValue_vlqLoop [OF d, of "[v mod 128]"] by (simp add: vlqValue_def)
  moreover have "vlqWellFormed (vlqLoop (v div 128) [v mod 128])"
    using vlqWellFormed_vlqLoop [OF d, of "[v mod 128]"] by simp
  ultimately show ?thesis unfolding eq by simp
qed

section \<open>Properties of the tempo change\<close>

lemma fl_near:
  assumes "\<bar>x - X\<bar> \<le> \<epsilon> * \<bar>X\<bar>" and "0 \<le> \<epsilon>"
  shows "\<bar>fl x - X\<bar> \<le> (\<epsilon> + (1 + \<epsilon>) / 2 ^ 53) * \<bar>X\<bar>"
proof -
  have "\<bar>x\<bar> \<le> \<bar>X\<bar> + \<bar>x - X\<bar>" by simp
  also have "\<dots> \<le> \<bar>X\<bar> + \<epsilon> * \<bar>X\<bar>" using assms(1) by simp
  finally have x: "\<bar>x\<bar> \<le> (1 + \<epsilon>) * \<bar>X\<bar>" by (simp add: algebra_simps)
  have "\<bar>fl x - X\<bar> \<le> \<bar>fl x - x\<bar> + \<bar>x - X\<bar>" by simp
  also have "\<dots> \<le> \<bar>x\<bar> / 2 ^ 53 + \<epsilon> * \<bar>X\<bar>"
    using fl_error [of x] assms(1) by (rule add_mono)
  also have "\<dots> \<le> (1 + \<epsilon>) * \<bar>X\<bar> / 2 ^ 53 + \<epsilon> * \<bar>X\<bar>"
    using x by (simp add: divide_right_mono)
  also have "\<dots> = (\<epsilon> + (1 + \<epsilon>) / 2 ^ 53) * \<bar>X\<bar>" by (simp add: algebra_simps)
  finally show ?thesis .
qed

lemma mult_near:
  fixes a r A R :: rat
  assumes a: "\<bar>a - A\<bar> \<le> \<epsilon> * \<bar>A\<bar>" and r: "\<bar>r - R\<bar> \<le> \<eta> * \<bar>R\<bar>"
    and "0 \<le> \<epsilon>" "0 \<le> \<eta>"
  shows "\<bar>a * r - A * R\<bar> \<le> (\<epsilon> + \<eta> + \<epsilon> * \<eta>) * \<bar>A * R\<bar>"
proof -
  have "a * r - A * R = (a - A) * R + A * (r - R) + (a - A) * (r - R)"
    by (simp add: algebra_simps)
  then have "\<bar>a * r - A * R\<bar> \<le> \<bar>(a - A) * R\<bar> + \<bar>A * (r - R)\<bar> + \<bar>(a - A) * (r - R)\<bar>"
    by (simp only: abs_triangle_ineq [THEN order_trans] add_mono order_refl)
  also have "\<dots> = \<bar>a - A\<bar> * \<bar>R\<bar> + \<bar>A\<bar> * \<bar>r - R\<bar> + \<bar>a - A\<bar> * \<bar>r - R\<bar>"
    by (simp only: abs_mult)
  also have "\<dots> \<le> (\<epsilon> * \<bar>A\<bar>) * \<bar>R\<bar> + \<bar>A\<bar> * (\<eta> * \<bar>R\<bar>) + (\<epsilon> * \<bar>A\<bar>) * (\<eta> * \<bar>R\<bar>)"
    using a r by (intro add_mono mult_mono) simp_all
  also have "\<dots> = (\<epsilon> + \<eta> + \<epsilon> * \<eta>) * \<bar>A * R\<bar>"
    by (simp add: abs_mult algebra_simps)
  finally show ?thesis .
qed

lemma rescale_once:
  "\<bar>fl (t * fl q) - t * q\<bar> \<le> (1 / 2 ^ 53 + (1 + 1 / 2 ^ 53) / 2 ^ 53) * \<bar>t * q\<bar>"
proof -
  have "\<bar>fl q - q\<bar> \<le> 1 / 2 ^ 53 * \<bar>q\<bar>" using fl_error [of q] by simp
  moreover have "\<bar>t - t\<bar> \<le> 0 * \<bar>t\<bar>" by simp
  ultimately have "\<bar>t * fl q - t * q\<bar> \<le> (0 + 1 / 2 ^ 53 + 0 * (1 / 2 ^ 53)) * \<bar>t * q\<bar>"
    by (intro mult_near) simp_all
  then have "\<bar>t * fl q - t * q\<bar> \<le> 1 / 2 ^ 53 * \<bar>t * q\<bar>" by simp
  then show ?thesis by (rule fl_near) simp
qed

lemma rescale_twice:
  assumes "t1 \<noteq> 0"
  shows "\<bar>fl (fl (t * fl (T / t1)) * fl (t1 / t2)) - t * T / t2\<bar>
           \<le> (5 / 2 ^ 53) * \<bar>t * T / t2\<bar>"
proof -
  define e2 :: rat where "e2 = 1 / 2 ^ 53 + (1 + 1 / 2 ^ 53) / 2 ^ 53"
  define e3 :: rat where "e3 = e2 + 1 / 2 ^ 53 + e2 * (1 / 2 ^ 53)"
  have e2: "0 \<le> e2" and e3: "0 \<le> e3" by (simp_all add: e2_def e3_def)
  have a: "\<bar>fl (t * fl (T / t1)) - t * (T / t1)\<bar> \<le> e2 * \<bar>t * (T / t1)\<bar>"
    unfolding e2_def by (rule rescale_once)
  have r: "\<bar>fl (t1 / t2) - t1 / t2\<bar> \<le> 1 / 2 ^ 53 * \<bar>t1 / t2\<bar>"
    using fl_error [of "t1 / t2"] by simp
  have "\<bar>fl (t * fl (T / t1)) * fl (t1 / t2) - t * (T / t1) * (t1 / t2)\<bar>
          \<le> e3 * \<bar>t * (T / t1) * (t1 / t2)\<bar>"
    unfolding e3_def using a r e2 by (intro mult_near) simp_all
  then have f: "\<bar>fl (fl (t * fl (T / t1)) * fl (t1 / t2)) - t * (T / t1) * (t1 / t2)\<bar>
          \<le> (e3 + (1 + e3) / 2 ^ 53) * \<bar>t * (T / t1) * (t1 / t2)\<bar>"
    using e3 by (rule fl_near)
  have eq: "t * (T / t1) * (t1 / t2) = t * T / t2" using assms by simp
  have 1: "\<bar>fl (fl (t * fl (T / t1)) * fl (t1 / t2)) - t * T / t2\<bar>
      \<le> (e3 + (1 + e3) / 2 ^ 53) * \<bar>t * T / t2\<bar>"
    using f unfolding eq .
  have "e3 + (1 + e3) / 2 ^ 53 \<le> 5 / 2 ^ 53" by (simp add: e3_def e2_def)
  then have 2: "(e3 + (1 + e3) / 2 ^ 53) * \<bar>t * T / t2\<bar> \<le> 5 / 2 ^ 53 * \<bar>t * T / t2\<bar>"
    by (rule mult_right_mono) simp
  from 1 2 show ?thesis by (rule order_trans)
qed

lemma abs_diff_via: "\<bar>a - b\<bar> \<le> \<bar>a - c\<bar> + \<bar>b - c\<bar>" for a b c :: rat
  using abs_triangle_ineq4 [of "a - c" "b - c"] by simp

lemma rescale_compare:
  assumes "t1 \<noteq> 0"
  shows "\<bar>fmul (fmul t (fl (T / t1))) (fl (t1 / t2)) - fmul t (fl (T / t2))\<bar>
           \<le> \<bar>t * T / t2\<bar> / 2 ^ 50"
proof -
  let ?X = "t * T / t2"
  have two: "\<bar>fl (fl (t * fl (T / t1)) * fl (t1 / t2)) - ?X\<bar> \<le> (5 / 2 ^ 53) * \<bar>?X\<bar>"
    using assms by (rule rescale_twice)
  have "\<bar>fl (t * fl (T / t2)) - t * (T / t2)\<bar>
          \<le> (1 / 2 ^ 53 + (1 + 1 / 2 ^ 53) / 2 ^ 53) * \<bar>t * (T / t2)\<bar>"
    by (rule rescale_once)
  then have 1: "\<bar>fl (t * fl (T / t2)) - ?X\<bar>
          \<le> (1 / 2 ^ 53 + (1 + 1 / 2 ^ 53) / 2 ^ 53) * \<bar>?X\<bar>"
    by simp
  have 2: "(1 / 2 ^ 53 + (1 + 1 / 2 ^ 53) / 2 ^ 53) * \<bar>?X\<bar> \<le> (3 / 2 ^ 53) * \<bar>?X\<bar>"
    by (rule mult_right_mono) simp_all
  from 1 2 have one: "\<bar>fl (t * fl (T / t2)) - ?X\<bar> \<le> (3 / 2 ^ 53) * \<bar>?X\<bar>"
    by (rule order_trans)
  have "\<bar>fl (fl (t * fl (T / t1)) * fl (t1 / t2)) - fl (t * fl (T / t2))\<bar>
          \<le> \<bar>fl (fl (t * fl (T / t1)) * fl (t1 / t2)) - ?X\<bar> + \<bar>fl (t * fl (T / t2)) - ?X\<bar>"
    by (rule abs_diff_via)
  also have "\<dots> \<le> (5 / 2 ^ 53) * \<bar>?X\<bar> + (3 / 2 ^ 53) * \<bar>?X\<bar>"
    using two one by (rule add_mono)
  also have "\<dots> = \<bar>?X\<bar> / 2 ^ 50" by simp
  finally show ?thesis by (simp add: fmul_def)
qed

lemma adjustTempo_Some:
  assumes "newTempo \<noteq> 0"
  shows "\<exists>s'. adjustTempo sequence newTempo = Some s' \<and> tempo s' = newTempo \<and>
           seq_duration s' = fmul (seq_duration sequence) (fl (tempo sequence / newTempo)) \<and>
           length (events s') = length (events sequence) \<and>
           (\<forall>i < length (events sequence).
              ev_time (events s' ! i) =
                fmul (ev_time (events sequence ! i)) (fl (tempo sequence / newTempo)))"
  using assms by (simp add: adjustTempo_def fdiv_def)

lemma adjustTempo_atSeven_twice:
  "map_option (\<lambda>s. (tempo s, map ev_time (events s), seq_duration s))
       (Option.bind (adjustTempo atSeven 90) (\<lambda>s. adjustTempo s 60)) =
     Some (60, [7881299347898367 / 562949953421312], 7881299347898367 / 562949953421312)"
  by code_simp

lemma adjustTempo_atSeven_once:
  "map_option (\<lambda>s. (tempo s, map ev_time (events s), seq_duration s))
       (adjustTempo atSeven 60) = Some (60, [14], 14)"
  by code_simp

text \<open>
  C8, as stated, fails. The sequence \<open>atSeven\<close> has the tempo 120 and one event at the
  time 7. Changed to the tempo 90 and then to 60, the event is at
  \<open>7881299347898367 / 2^49\<close>, the double just below 14 (the quotient 120 / 90 is
  rounded, and so is each product); changed to 60 directly it is at 14. The
  durations differ in the same way.
\<close>

theorem adjustTempo_twice_counterexample:
  "map_option (\<lambda>s. (tempo s, map ev_time (events s), seq_duration s))
       (Option.bind (adjustTempo atSeven 90) (\<lambda>s. adjustTempo s 60)) =
     Some (60, [7881299347898367 / 562949953421312], 7881299347898367 / 562949953421312) \<and>
   map_option (\<lambda>s. (tempo s, map ev_time (events s), seq_duration s))
       (adjustTempo atSeven 60) = Some (60, [14], 14) \<and>
   Option.bind (adjustTempo atSeven 90) (\<lambda>s. adjustTempo s 60) \<noteq> adjustTempo atSeven 60"
proof -
  let ?f = "\<lambda>s. (tempo s, map ev_time (events s), seq_duration s)"
  let ?two = "Option.bind (adjustTempo atSeven 90) (\<lambda>s. adjustTempo s 60)"
  have "map_option ?f ?two \<noteq> map_option ?f (adjustTempo atSeven 60)"
    unfolding adjustTempo_atSeven_twice adjustTempo_atSeven_once by simp
  then have "?two \<noteq> adjustTempo atSeven 60" by auto
  with adjustTempo_atSeven_twice adjustTempo_atSeven_once show ?thesis by simp
qed

text \<open>
  C8, amended. For every sequence and tempos \<open>t1\<close> and \<open>t2\<close> other than 0 (so for
  positive ones), \<^verbatim>\<open>adjustTempo\<close> with \<open>t1\<close> and then with \<open>t2\<close>, and
  \<^verbatim>\<open>adjustTempo\<close> with \<open>t2\<close> alone, return sequences with the same tempo and as
  many events as the input. The event times and the duration are close, not equal:
  each is a double, rounded after every quotient and product, and as long as these
  quotients and products stay in the range of the doubles the two results differ by
  at most \<open>2^-50\<close> times the exact value, which is the time multiplied by the tempo
  of the input and divided by \<open>t2\<close>.
\<close>

theorem adjustTempo_twice_near:
  "t1 \<noteq> 0 \<Longrightarrow> t2 \<noteq> 0 \<Longrightarrow>
     (\<exists>two one.
        Option.bind (adjustTempo sequence t1) (\<lambda>s. adjustTempo s t2) = Some two \<and>
        adjustTempo sequence t2 = Some one \<and>
        tempo two = tempo one \<and>
        length (events two) = length (events sequence) \<and>
        length (events one) = length (events sequence) \<and>
        (rescaleInRange (tempo sequence) t1 t2 (seq_duration sequence) \<longrightarrow>
           \<bar>seq_duration two - seq_duration one\<bar>
             \<le> \<bar>seq_duration sequence * tempo sequence / t2\<bar> / 2 ^ 50) \<and>
        (\<forall>i < length (events sequence).
           rescaleInRange (tempo sequence) t1 t2 (ev_time (events sequence ! i)) \<longrightarrow>
           \<bar>ev_time (events two ! i) - ev_time (events one ! i)\<bar>
             \<le> \<bar>ev_time (events sequence ! i) * tempo sequence / t2\<bar> / 2 ^ 50))"
proof -
  assume t1: "t1 \<noteq> 0" and t2: "t2 \<noteq> 0"
  let ?T = "tempo sequence"
  from adjustTempo_Some [OF t1, of sequence] obtain s1 where
    s1: "adjustTempo sequence t1 = Some s1" "tempo s1 = t1"
      "seq_duration s1 = fmul (seq_duration sequence) (fl (?T / t1))"
      "length (events s1) = length (events sequence)"
      "\<forall>i < length (events sequence).
         ev_time (events s1 ! i) = fmul (ev_time (events sequence ! i)) (fl (?T / t1))"
    by blast
  from adjustTempo_Some [OF t2, of s1] obtain two where
    two: "adjustTempo s1 t2 = Some two" "tempo two = t2"
      "seq_duration two = fmul (seq_duration s1) (fl (tempo s1 / t2))"
      "length (events two) = length (events s1)"
      "\<forall>i < length (events s1).
         ev_time (events two ! i) = fmul (ev_time (events s1 ! i)) (fl (tempo s1 / t2))"
    by blast
  from adjustTempo_Some [OF t2, of sequence] obtain one where
    one: "adjustTempo sequence t2 = Some one" "tempo one = t2"
      "seq_duration one = fmul (seq_duration sequence) (fl (?T / t2))"
      "length (events one) = length (events sequence)"
      "\<forall>i < length (events sequence).
         ev_time (events one ! i) = fmul (ev_time (events sequence ! i)) (fl (?T / t2))"
    by blast
  have b: "Option.bind (adjustTempo sequence t1) (\<lambda>s. adjustTempo s t2) = Some two"
    using s1(1) two(1) by simp
  have d: "\<bar>seq_duration two - seq_duration one\<bar>
          \<le> \<bar>seq_duration sequence * ?T / t2\<bar> / 2 ^ 50"
    unfolding two(3) one(3) s1(2) s1(3) using t1 by (rule rescale_compare)
  have e: "\<bar>ev_time (events two ! i) - ev_time (events one ! i)\<bar>
             \<le> \<bar>ev_time (events sequence ! i) * ?T / t2\<bar> / 2 ^ 50"
    if "i < length (events sequence)" for i
  proof -
    have "ev_time (events two ! i) =
        fmul (fmul (ev_time (events sequence ! i)) (fl (?T / t1))) (fl (t1 / t2))"
      using that two(5) s1(4) s1(5) s1(2) by simp
    moreover have "ev_time (events one ! i) =
        fmul (ev_time (events sequence ! i)) (fl (?T / t2))"
      using that one(5) by simp
    ultimately show ?thesis using rescale_compare [OF t1] by simp
  qed
  have tt: "tempo two = tempo one" using two(2) one(2) by simp
  have len: "length (events two) = length (events sequence)" using two(4) s1(4) by simp
  have "Option.bind (adjustTempo sequence t1) (\<lambda>s. adjustTempo s t2) = Some two \<and>
        adjustTempo sequence t2 = Some one \<and>
        tempo two = tempo one \<and>
        length (events two) = length (events sequence) \<and>
        length (events one) = length (events sequence) \<and>
        \<bar>seq_duration two - seq_duration one\<bar>
          \<le> \<bar>seq_duration sequence * tempo sequence / t2\<bar> / 2 ^ 50 \<and>
        (\<forall>i < length (events sequence).
           \<bar>ev_time (events two ! i) - ev_time (events one ! i)\<bar>
             \<le> \<bar>ev_time (events sequence ! i) * tempo sequence / t2\<bar> / 2 ^ 50)"
  proof (intro conjI allI impI)
    show "Option.bind (adjustTempo sequence t1) (\<lambda>s. adjustTempo s t2) = Some two" by (rule b)
    show "adjustTempo sequence t2 = Some one" by (rule one(1))
    show "tempo two = tempo one" by (rule tt)
    show "length (events two) = length (events sequence)" by (rule len)
    show "length (events one) = length (events sequence)" by (rule one(4))
    show "\<bar>seq_duration two - seq_duration one\<bar>
          \<le> \<bar>seq_duration sequence * tempo sequence / t2\<bar> / 2 ^ 50" by (rule d)
  next
    fix i assume "i < length (events sequence)"
    then show "\<bar>ev_time (events two ! i) - ev_time (events one ! i)\<bar>
             \<le> \<bar>ev_time (events sequence ! i) * tempo sequence / t2\<bar> / 2 ^ 50" by (rule e)
  qed
  then show ?thesis by blast
qed

theorem adjustTempo_twice_near_witness:
  "(90::rat) \<noteq> 0 \<and> (60::rat) \<noteq> 0 \<and>
   rescaleInRange (tempo atSeven) 90 60 (ev_time (events atSeven ! 0)) \<and>
   (\<exists>two one.
      Option.bind (adjustTempo atSeven 90) (\<lambda>s. adjustTempo s 60) = Some two \<and>
      adjustTempo atSeven 60 = Some one \<and>
      tempo two = tempo one \<and> length (events two) = 1 \<and> length (events one) = 1 \<and>
      ev_time (events two ! 0) = 7881299347898367 / 562949953421312 \<and>
      ev_time (events one ! 0) = 14 \<and>
      \<bar>ev_time (events two ! 0) - ev_time (events one ! 0)\<bar> \<le> 14 / 2 ^ 50)"
proof -
  have n: "(90::rat) \<noteq> 0" "(60::rat) \<noteq> 0" by simp_all
  have a: "length (events atSeven) = 1" "ev_time (events atSeven ! 0) = 7"
    "tempo atSeven = 120" "0 < length (events atSeven)"
    by (simp_all add: atSeven_def)
  have r: "rescaleInRange (tempo atSeven) 90 60 (ev_time (events atSeven ! 0))"
    unfolding rescaleInRange_def a(2) a(3) by (intro conjI inDoubleRange_mid; code_simp)
  from adjustTempo_twice_near [of 90 60 atSeven, OF n] obtain two one where
    h: "Option.bind (adjustTempo atSeven 90) (\<lambda>s. adjustTempo s 60) = Some two"
      "adjustTempo atSeven 60 = Some one" "tempo two = tempo one"
      "length (events two) = length (events atSeven)"
      "length (events one) = length (events atSeven)"
      "\<forall>i < length (events atSeven).
         rescaleInRange (tempo atSeven) 90 60 (ev_time (events atSeven ! i)) \<longrightarrow>
         \<bar>ev_time (events two ! i) - ev_time (events one ! i)\<bar>
           \<le> \<bar>ev_time (events atSeven ! i) * tempo atSeven / 60\<bar> / 2 ^ 50"
    by blast
  from h(6) a(4) r
  have "\<bar>ev_time (events two ! 0) - ev_time (events one ! 0)\<bar>
          \<le> \<bar>ev_time (events atSeven ! 0) * tempo atSeven / 60\<bar> / 2 ^ 50"
    by blast
  then have b: "\<bar>ev_time (events two ! 0) - ev_time (events one ! 0)\<bar> \<le> 14 / 2 ^ 50"
    unfolding a(2) a(3) by simp
  have "map ev_time (events two) = [7881299347898367 / 562949953421312]"
    using adjustTempo_atSeven_twice unfolding h(1) by simp
  then have "map ev_time (events two) ! 0 = 7881299347898367 / 562949953421312" by simp
  moreover have "map ev_time (events two) ! 0 = ev_time (events two ! 0)"
    using h(4) a(1) by (intro nth_map) simp
  ultimately have v2: "ev_time (events two ! 0) = 7881299347898367 / 562949953421312"
    by simp
  have "map ev_time (events one) = [14]"
    using adjustTempo_atSeven_once unfolding h(2) by simp
  then have "map ev_time (events one) ! 0 = 14" by simp
  moreover have "map ev_time (events one) ! 0 = ev_time (events one ! 0)"
    using h(5) a(1) by (intro nth_map) simp
  ultimately have v1: "ev_time (events one ! 0) = 14" by simp
  have l: "length (events two) = 1" "length (events one) = 1"
    using h(4) h(5) a(1) by simp_all
  from n r h(1) h(2) h(3) l v2 v1 b show ?thesis by blast
qed

end
